theory Spec2Isabelle
  imports Main
begin

section \<open>Values, futures and callables\<close>

text \<open>
  The values that travel through an Observable are plain values or promise objects. The
  plain values are \<open>undefined\<close>, numbers, strings, Error objects (identified by their
  message) and the TypeError the runtime raises on a property read of \<open>undefined\<close>. A
  promise object is given by the state of the promise: fulfilled with a plain value,
  rejected with any value as its reason, or pending. A promise that is \<open>Pending\<close> here is
  one that does not settle (\<^verbatim>\<open>new Promise(() => {})\<close>).
\<close>

datatype plain = Undefined | Num int | Str string | Error string | TypeError

datatype jsval = Plain plain | Promise fstate
  and fstate = Fulfilled plain | Rejected jsval | Pending

text \<open>What calling a function gives: it returns a value or throws one.\<close>

datatype outcome = Return jsval | Throw jsval

text \<open>
  The function values of \<^verbatim>\<open>Observable.ts\<close>:
  \<^item> \<open>UserFn f\<close>: a transform supplied by the caller of \<^verbatim>\<open>subscribe\<close>;
  \<^item> \<open>EmitBound n\<close>: \<^verbatim>\<open>this.emit.bind(this)\<close> of the constructor, for the node \<open>n\<close>;
  \<^item> \<open>EmitMethod\<close>: the value of the property read \<^verbatim>\<open>subscriber.emit\<close>, which is the
    method \<^verbatim>\<open>Observable.prototype.emit\<close> without a receiver;
  \<^item> \<open>NextErr n\<close>: the closure \<^verbatim>\<open>function (reason) { subscriber.emit(_.Promise.reject(reason)); }\<close>
    that \<^verbatim>\<open>subscribe\<close> stores in \<^verbatim>\<open>_nextErr\<close>, for the subscriber \<open>n\<close>;
  \<^item> \<open>MergeOnError emit\<close>: the closure \<^verbatim>\<open>function onError (e) { emit(_.Promise.reject(e)); }\<close>
    of \<^verbatim>\<open>merge\<close>, over the executor's parameter \<open>emit\<close>.
\<close>

datatype callable =
    UserFn "jsval \<Rightarrow> outcome"
  | EmitBound nat
  | EmitMethod
  | NextErr nat
  | MergeOnError callable

section \<open>The future engine\<close>

text \<open>
  The future engine \<^verbatim>\<open>_.Promise\<close> is the module \<^verbatim>\<open>./_\<close>, which is not among the sources.
  The spec asks of it the construction of an already-resolved future from a plain
  value, of an already-rejected future from a reason, and a chaining operation of two
  callbacks that returns a new future reflecting whichever handler ran and what it
  produced or raised; all work runs as callbacks on one logical event queue.

  A future is represented by the state of the promise at the head of a chain and the
  reactions chained behind it, oldest first; each reaction is the pair of handlers of
  one \<^verbatim>\<open>then\<close>, either of which may be absent.
\<close>

type_synonym reaction = "callable option \<times> callable option"

datatype future = Future fstate "reaction list"

text \<open>Modelled from the spec: \<^verbatim>\<open>_.Promise.resolve(val)\<close>, the future of module \<^verbatim>\<open>./_\<close> that is
  already resolved with a plain value, or the promise \<open>val\<close> itself.\<close>

definition promise_resolve :: "jsval \<Rightarrow> future" where
  "promise_resolve val = Future (case val of Plain v \<Rightarrow> Fulfilled v | Promise st \<Rightarrow> st) []"

text \<open>Modelled from the spec: \<^verbatim>\<open>_.Promise.reject(reason)\<close>, the promise object of module
  \<^verbatim>\<open>./_\<close> that is already rejected with the reason.\<close>

definition promise_reject :: "jsval \<Rightarrow> jsval" where
  "promise_reject reason = Promise (Rejected reason)"

text \<open>Modelled from the spec: \<^verbatim>\<open>then(onFulfilled, onRejected)\<close> of module \<^verbatim>\<open>./_\<close>, the
  chaining of two callbacks behind a future.\<close>

fun promise_then :: "future \<Rightarrow> callable option \<Rightarrow> callable option \<Rightarrow> future" where
  "promise_then (Future st rs) onFulfilled onRejected = Future st (rs @ [(onFulfilled, onRejected)])"

text \<open>Modelled from the spec: how module \<^verbatim>\<open>./_\<close> settles the future that \<^verbatim>\<open>then\<close> returned,
  from the outcome of the handler: a returned plain value fulfils it, a returned promise
  is adopted, a thrown value rejects it.\<close>

fun settle :: "outcome \<Rightarrow> fstate" where
  "settle (Return val) = (case val of Plain v \<Rightarrow> Fulfilled v | Promise st \<Rightarrow> st)"
| "settle (Throw e) = Rejected e"

text \<open>Modelled from the spec: the handler of a reaction that module \<^verbatim>\<open>./_\<close> runs for a
  settled state (the first on success, the second on failure), and the value it is
  given.\<close>

fun select :: "fstate \<Rightarrow> reaction \<Rightarrow> callable option" where
  "select (Fulfilled v) (onFulfilled, onRejected) = onFulfilled"
| "select (Rejected e) (onFulfilled, onRejected) = onRejected"
| "select Pending (onFulfilled, onRejected) = None"

fun payload :: "fstate \<Rightarrow> jsval" where
  "payload (Fulfilled v) = Plain v"
| "payload (Rejected e) = e"
| "payload Pending = Plain Undefined"

section \<open>The data model\<close>

text \<open>
  A node is an instance of the class \<^verbatim>\<open>Observable\<close>. Nodes live in a store and refer to
  each other by their index in it. The field \<open>by_subscribe\<close> is not a field of the class:
  it records whether the node was created inside \<^verbatim>\<open>subscribe\<close>.
\<close>

record node =
  subscribers :: "nat list"
  publisher :: "nat option"
  onEmit :: "callable option"
  onError :: "callable option"
  nextErr :: "callable option"
  by_subscribe :: bool

text \<open>
  A job of the event queue: a settled future with the reactions still to run. It carries
  the subscriber the chain was built for and the number of the stage it is at; neither
  influences the run, they label the entries of the log.
\<close>

datatype job = Job nat nat fstate "reaction list"

text \<open>An entry of the log: a reaction of the given subscriber's chain ran at the given
  stage, on the given settled state, and settled the next future as given.\<close>

datatype event = Reaction nat nat fstate fstate

record state =
  heap :: "node list"
  queue :: "job list"
  events :: "event list"

definition upd_node :: "nat \<Rightarrow> (node \<Rightarrow> node) \<Rightarrow> state \<Rightarrow> state" where
  "upd_node n f s = s\<lparr>heap := (heap s)[n := f (heap s ! n)]\<rparr>"

text \<open>Modelled from the spec: the scheduling of module \<^verbatim>\<open>./_\<close>. A future whose head is
  settled has its first reaction put on the event queue; one that is pending never
  settles, and nothing is queued for it.\<close>

fun schedule :: "nat \<Rightarrow> future \<Rightarrow> state \<Rightarrow> state" where
  "schedule owner (Future st rs) s =
     (if st = Pending \<or> rs = [] then s else s\<lparr>queue := queue s @ [Job owner 1 st rs]\<rparr>)"

section \<open>The class Observable\<close>

subsection \<open>emit\<close>

text \<open>
  \<^verbatim>\<open>let i = 0, len = this.subscribers.length, subscriber;
  while (i < len) {
      subscriber = this.subscribers[i++];
      _.Promise.resolve(val).then(subscriber._onEmit, subscriber._onError)
                            .then(subscriber.emit, subscriber._nextErr);
  }\<close>
  The loop reads the live array by index. An index past its end would read \<open>undefined\<close>,
  and the read of its \<^verbatim>\<open>_onEmit\<close> would raise; the loop stops there.
\<close>

function emit_loop :: "nat \<Rightarrow> jsval \<Rightarrow> nat \<Rightarrow> nat \<Rightarrow> state \<Rightarrow> state" where
  "emit_loop this val i len s =
     (if i < len then
        (if i < length (subscribers (heap s ! this)) then
           (let subscriber = subscribers (heap s ! this) ! i;
                sub = heap s ! subscriber
            in emit_loop this val (i + 1) len
                 (schedule subscriber
                    (promise_then (promise_then (promise_resolve val) (onEmit sub) (onError sub))
                       (Some EmitMethod) (nextErr sub)) s))
         else s)
      else s)"
  by pat_completeness auto

termination
  by (relation "measure (\<lambda>(this, val, i, len, s). len - i)") auto

declare emit_loop.simps [simp del]

text \<open>The receiver of a method call is an object of the store; for an index that denotes
  no object there is no call.\<close>

definition emit :: "nat \<Rightarrow> jsval \<Rightarrow> state \<Rightarrow> state" where
  "emit this val s =
     (if this < length (heap s) then emit_loop this val 0 (length (subscribers (heap s ! this))) s
      else s)"

subsection \<open>Calling a function value\<close>

text \<open>
  The engine calls a handler as a plain function, with one argument. Called so, the
  method \<^verbatim>\<open>emit\<close> has no receiver: \<^verbatim>\<open>this\<close> is \<open>undefined\<close> and the read
  \<^verbatim>\<open>this.subscribers\<close> raises a TypeError. The bound emit and the two closures call
  \<^verbatim>\<open>emit\<close> on their node and return \<open>undefined\<close>.
\<close>

fun invoke :: "callable \<Rightarrow> jsval \<Rightarrow> state \<Rightarrow> outcome \<times> state" where
  "invoke (UserFn f) v s = (f v, s)"
| "invoke (EmitBound n) v s = (Return (Plain Undefined), emit n v s)"
| "invoke EmitMethod v s = (Throw (Plain TypeError), s)"
| "invoke (NextErr n) reason s = (Return (Plain Undefined), emit n (promise_reject reason) s)"
| "invoke (MergeOnError em) e s =
     (case invoke em (promise_reject e) s of
        (Return _, s') \<Rightarrow> (Return (Plain Undefined), s')
      | (Throw x, s') \<Rightarrow> (Throw x, s'))"

subsection \<open>The event queue\<close>

text \<open>
  Modelled from the spec: the event queue of module \<^verbatim>\<open>./_\<close>, first in first out. Running
  a job: the settled state selects the handler of the first reaction; an absent
  handler passes the state through, a present one is called and its outcome settles
  the next future, whose reactions are scheduled in turn. \<open>tick\<close> is one turn of the
  queue and \<open>run k\<close> are \<open>k\<close> turns.
\<close>

fun run_job :: "job \<Rightarrow> state \<Rightarrow> state" where
  "run_job (Job owner stage st []) s = s"
| "run_job (Job owner stage st (r # rs)) s =
     (let (st', s') = (case select st r of
                         None \<Rightarrow> (st, s)
                       | Some h \<Rightarrow> (let (out, s') = invoke h (payload st) s in (settle out, s')));
          s'' = s'\<lparr>events := events s' @ [Reaction owner stage st st']\<rparr>
      in if st' = Pending \<or> rs = [] then s''
         else s''\<lparr>queue := queue s'' @ [Job owner (stage + 1) st' rs]\<rparr>)"

definition tick :: "state \<Rightarrow> state" where
  "tick s = (case queue s of [] \<Rightarrow> s | j # q \<Rightarrow> run_job j (s\<lparr>queue := q\<rparr>))"

fun run :: "nat \<Rightarrow> state \<Rightarrow> state" where
  "run 0 s = s"
| "run (Suc k) s = run k (tick s)"

subsection \<open>constructor, subscribe, unsubscribe\<close>

text \<open>
  \<^verbatim>\<open>this.subscribers = []; executor && executor(this.emit.bind(this));\<close>
  The other fields of a new object are \<open>undefined\<close>.
\<close>

definition new_Observable :: "(callable \<Rightarrow> state \<Rightarrow> state) option \<Rightarrow> state \<Rightarrow> nat \<times> state" where
  "new_Observable executor s =
     (let this = length (heap s);
          s1 = s\<lparr>heap := heap s @ [\<lparr>subscribers = [], publisher = None, onEmit = None,
                                     onError = None, nextErr = None, by_subscribe = False\<rparr>]\<rparr>
      in (this, case executor of None \<Rightarrow> s1 | Some ex \<Rightarrow> ex (EmitBound this) s1))"

text \<open>
  \<^verbatim>\<open>let self = this, subscriber = new Observable();
  subscriber._onEmit = onEmit;
  subscriber._onError = onError;
  subscriber._nextErr = function (reason) { subscriber.emit(_.Promise.reject(reason)); };
  subscriber.publisher = self;
  self.subscribers.push(subscriber);
  return subscriber;\<close>
\<close>

definition subscribe :: "nat \<Rightarrow> callable option \<Rightarrow> callable option \<Rightarrow> state \<Rightarrow> nat \<times> state" where
  "subscribe self onEmit' onError' s =
     (let (subscriber, s1) = new_Observable None s;
          s2 = upd_node subscriber (\<lambda>n. n\<lparr>onEmit := onEmit', by_subscribe := True\<rparr>) s1;
          s3 = upd_node subscriber (\<lambda>n. n\<lparr>onError := onError'\<rparr>) s2;
          s4 = upd_node subscriber (\<lambda>n. n\<lparr>nextErr := Some (NextErr subscriber)\<rparr>) s3;
          s5 = upd_node subscriber (\<lambda>n. n\<lparr>publisher := Some self\<rparr>) s4;
          s6 = upd_node self (\<lambda>n. n\<lparr>subscribers := subscribers n @ [subscriber]\<rparr>) s5
      in (subscriber, s6))"

text \<open>
  The array methods of the language. \<^verbatim>\<open>indexOf\<close> gives the first index of an element,
  or \<open>-1\<close>. \<^verbatim>\<open>splice(start, deleteCount)\<close> counts a negative \<open>start\<close> from the end of the array
  and clamps both arguments to the array.
\<close>

fun indexOf :: "nat list \<Rightarrow> nat \<Rightarrow> int" where
  "indexOf [] x = -1"
| "indexOf (y # ys) x = (if y = x then 0 else (let k = indexOf ys x in if k < 0 then -1 else k + 1))"

definition splice_js :: "int \<Rightarrow> int \<Rightarrow> 'a list \<Rightarrow> 'a list" where
  "splice_js start deleteCount xs =
     (let len = int (length xs);
          actualStart = (if start < 0 then max (len + start) 0 else min start len);
          actualDeleteCount = min (max deleteCount 0) (len - actualStart)
      in take (nat actualStart) xs @ drop (nat (actualStart + actualDeleteCount)) xs)"

text \<open>
  \<^verbatim>\<open>let publisher = this.publisher;
  publisher && publisher.subscribers.splice(publisher.subscribers.indexOf(this), 1);\<close>
\<close>

definition unsubscribe :: "nat \<Rightarrow> state \<Rightarrow> state" where
  "unsubscribe this s =
     (case publisher (heap s ! this) of
        None \<Rightarrow> s
      | Some p \<Rightarrow> upd_node p (\<lambda>n. n\<lparr>subscribers := splice_js (indexOf (subscribers n) this) 1 (subscribers n)\<rparr>) s)"

subsection \<open>merge\<close>

type_synonym iterator = "nat list"

text \<open>
  Modelled from the spec: the iterator adapter \<^verbatim>\<open>genIterator\<close> (module \<^verbatim>\<open>./genIterator\<close>,
  not among the sources): given a finite iterable it produces a pull-based cursor with
  "next element or done" semantics. The cursor is the list of the elements not yet
  pulled; \<open>None\<close> is the item whose \<^verbatim>\<open>done\<close> is true.
\<close>

definition genIterator :: "nat list \<Rightarrow> iterator" where
  "genIterator iterable = iterable"

text \<open>Modelled from the spec: \<^verbatim>\<open>iter.next()\<close> of the cursor of module \<^verbatim>\<open>./genIterator\<close>.\<close>

fun iter_next :: "iterator \<Rightarrow> nat option \<times> iterator" where
  "iter_next [] = (None, [])"
| "iter_next (x # xs) = (Some x, xs)"

lemma iter_next_shorter: "(Some x, iter') = iter_next iter \<Longrightarrow> length iter' < length iter"
  by (cases iter) auto

text \<open>
  The executor of \<^verbatim>\<open>merge\<close>:
  \<^verbatim>\<open>while (!(item = iter.next()).done) { item.value.subscribe(emit, onError); }\<close>
  It returns the cursor as the loop leaves it, with the state.
\<close>

function merge_exec :: "iterator \<Rightarrow> callable \<Rightarrow> state \<Rightarrow> iterator \<times> state" where
  "merge_exec iter emit' s =
     (case iter_next iter of
        (None, iter') \<Rightarrow> (iter', s)
      | (Some item, iter') \<Rightarrow>
          merge_exec iter' emit' (snd (subscribe item (Some emit') (Some (MergeOnError emit')) s)))"
  by pat_completeness auto

termination
  by (relation "measure (\<lambda>(iter, emit', s). length iter)") (auto dest: iter_next_shorter)

declare merge_exec.simps [simp del]

text \<open>
  \<^verbatim>\<open>let iter = genIterator(iterable);
  return new Observable(function (emit) { ... });\<close>
\<close>

definition merge :: "nat list \<Rightarrow> state \<Rightarrow> nat \<times> state" where
  "merge iterable s =
     (let iter = genIterator iterable
      in new_Observable (Some (\<lambda>emit' s'. snd (merge_exec iter emit' s'))) s)"

text \<open>The state before any object exists.\<close>

definition init :: state where
  "init = \<lparr>heap = [], queue = [], events = []\<rparr>"

section \<open>Notions for the proofs, and the states of the examples\<close>

text \<open>
  The operations above are characterised by what they append to the queue and to the
  log. \<open>resolved\<close> is the state of the future \<^verbatim>\<open>_.Promise.resolve(val)\<close>; \<open>jobs_of\<close> are the jobs
  one call of \<^verbatim>\<open>emit\<close> queues; \<open>inv_out\<close> and \<open>inv_jobs\<close> are the outcome of a call
  and the jobs it queues; \<open>stage_result\<close>, \<open>spawn\<close> and \<open>ev\<close> are the settled result of
  a job, the jobs it queues and the entry it logs.
\<close>

fun resolved :: "jsval \<Rightarrow> fstate" where
  "resolved (Plain v) = Fulfilled v"
| "resolved (Promise st) = st"

definition job_of :: "node list \<Rightarrow> jsval \<Rightarrow> nat \<Rightarrow> job list" where
  "job_of h val c =
     (if resolved val = Pending then []
      else [Job c 1 (resolved val) [(onEmit (h ! c), onError (h ! c)), (Some EmitMethod, nextErr (h ! c))]])"

definition jobs_of :: "node list \<Rightarrow> jsval \<Rightarrow> nat list \<Rightarrow> job list" where
  "jobs_of h val cs = concat (map (job_of h val) cs)"

definition subs_of :: "node list \<Rightarrow> nat \<Rightarrow> nat list" where
  "subs_of h n = (if n < length h then subscribers (h ! n) else [])"

fun inv_out :: "callable \<Rightarrow> jsval \<Rightarrow> outcome" where
  "inv_out (UserFn f) v = f v"
| "inv_out (EmitBound n) v = Return (Plain Undefined)"
| "inv_out EmitMethod v = Throw (Plain TypeError)"
| "inv_out (NextErr n) v = Return (Plain Undefined)"
| "inv_out (MergeOnError em) v =
     (case inv_out em (promise_reject v) of Return _ \<Rightarrow> Return (Plain Undefined) | Throw x \<Rightarrow> Throw x)"

fun inv_jobs :: "node list \<Rightarrow> callable \<Rightarrow> jsval \<Rightarrow> job list" where
  "inv_jobs h (UserFn f) v = []"
| "inv_jobs h (EmitBound n) v = jobs_of h v (subs_of h n)"
| "inv_jobs h EmitMethod v = []"
| "inv_jobs h (NextErr n) v = jobs_of h (promise_reject v) (subs_of h n)"
| "inv_jobs h (MergeOnError em) v = inv_jobs h em (promise_reject v)"

definition stage_result :: "fstate \<Rightarrow> reaction \<Rightarrow> fstate" where
  "stage_result st r = (case select st r of None \<Rightarrow> st | Some h \<Rightarrow> settle (inv_out h (payload st)))"

fun spawn :: "node list \<Rightarrow> job \<Rightarrow> job list" where
  "spawn h (Job c k st []) = []"
| "spawn h (Job c k st (r # rs)) =
     (case select st r of None \<Rightarrow> [] | Some f \<Rightarrow> inv_jobs h f (payload st))
     @ (if stage_result st r = Pending \<or> rs = [] then [] else [Job c (k + 1) (stage_result st r) rs])"

fun ev :: "job \<Rightarrow> event list" where
  "ev (Job c k st []) = []"
| "ev (Job c k st (r # rs)) = [Reaction c k st (stage_result st r)]"

text \<open>The node that \<^verbatim>\<open>subscribe\<close> creates, the push onto a subscribers sequence, and the
  node that the constructor creates.\<close>

definition fresh :: "nat \<Rightarrow> nat \<Rightarrow> callable option \<Rightarrow> callable option \<Rightarrow> node" where
  "fresh c p a b = \<lparr>subscribers = [], publisher = Some p, onEmit = a, onError = b,
                    nextErr = Some (NextErr c), by_subscribe = True\<rparr>"

definition push :: "nat \<Rightarrow> node \<Rightarrow> node" where
  "push c n = n\<lparr>subscribers := subscribers n @ [c]\<rparr>"

text \<open>The positions at which an iterable yields a given source, and the store after
  \<^verbatim>\<open>merge\<close> has subscribed a bridge to the source of each position: the \<open>i\<close>-th bridge is
  the \<open>i\<close>-th node after those of the store before.\<close>

definition slots :: "nat \<Rightarrow> nat list \<Rightarrow> nat list" where
  "slots n xs = filter (\<lambda>i. xs ! i = n) [0..<length xs]"

definition bridged :: "node list \<Rightarrow> callable \<Rightarrow> nat list \<Rightarrow> node list \<Rightarrow> bool" where
  "bridged h em xs h' \<longleftrightarrow>
     length h' = length h + length xs
     \<and> (\<forall>n < length h. h' ! n = (h ! n)\<lparr>subscribers := subscribers (h ! n) @ map (\<lambda>i. length h + i) (slots n xs)\<rparr>)
     \<and> (\<forall>i < length xs. h' ! (length h + i) = fresh (length h + i) (xs ! i) (Some em) (Some (MergeOnError em)))"

definition blank :: node where
  "blank = \<lparr>subscribers = [], publisher = None, onEmit = None, onError = None, nextErr = None,
            by_subscribe = False\<rparr>"

text \<open>
  The public operations, as a caller performs them one after the other: construction
  (with an executor that emits the given values at once; the empty list stands for no
  executor), \<^verbatim>\<open>subscribe\<close>, \<^verbatim>\<open>unsubscribe\<close>, \<^verbatim>\<open>emit\<close>, \<^verbatim>\<open>merge\<close>, and a turn of the event
  queue. A method is called on an object that exists.
\<close>

datatype op =
    Construct "jsval list"
  | Subscribe nat "callable option" "callable option"
  | Unsubscribe nat
  | Emit nat jsval
  | Merge "nat list"
  | Tick

fun exec :: "op \<Rightarrow> state \<Rightarrow> state" where
  "exec (Construct vs) s =
     snd (new_Observable (Some (\<lambda>emit' s'. foldl (\<lambda>s'' v. snd (invoke emit' v s'')) s' vs)) s)"
| "exec (Subscribe n a b) s = (if n < length (heap s) then snd (subscribe n a b s) else s)"
| "exec (Unsubscribe n) s = (if n < length (heap s) then unsubscribe n s else s)"
| "exec (Emit n v) s = (if n < length (heap s) then emit n v s else s)"
| "exec (Merge xs) s = (if \<forall>x \<in> set xs. x < length (heap s) then snd (merge xs s) else s)"
| "exec Tick s = tick s"

definition exec_all :: "op list \<Rightarrow> state \<Rightarrow> state" where
  "exec_all ops s = foldl (\<lambda>s' x. exec x s') s ops"

text \<open>The structural invariants: the subscribers of a node are nodes of the store created
  after it, no node stands
  twice in the subscribers sequences of the store, and a node has a publisher if and only
  if \<^verbatim>\<open>subscribe\<close> created it.\<close>

definition tree_inv :: "node list \<Rightarrow> bool" where
  "tree_inv h \<longleftrightarrow>
     (\<forall>n < length h. \<forall>c \<in> set (subscribers (h ! n)). n < c \<and> c < length h)
     \<and> distinct (concat (map subscribers h))
     \<and> (\<forall>n < length h. (publisher (h ! n) \<noteq> None) = by_subscribe (h ! n))"

text \<open>An entry is delivered from a state when every sufficiently long run of the event
  queue from that state has logged it.\<close>

definition delivered :: "event \<Rightarrow> state \<Rightarrow> bool" where
  "delivered e s \<longleftrightarrow> (\<exists>k0. \<forall>k \<ge> k0. e \<in> set (events (run k s)))"

text \<open>The jobs that arise from a queue: those in it, and those that a job that arises
  queues when it runs.\<close>

inductive arises :: "node list \<Rightarrow> job list \<Rightarrow> job \<Rightarrow> bool" for h q where
  queued: "j \<in> set q \<Longrightarrow> arises h q j"
| spawned: "arises h q j \<Longrightarrow> j' \<in> set (spawn h j) \<Longrightarrow> arises h q j'"

text \<open>The job that \<^verbatim>\<open>emit\<close> queues for a subscriber, and the result of its first stage.\<close>

definition first_job :: "node list \<Rightarrow> fstate \<Rightarrow> nat \<Rightarrow> job" where
  "first_job h st c = Job c 1 st [(onEmit (h ! c), onError (h ! c)), (Some EmitMethod, nextErr (h ! c))]"

definition first_result :: "node list \<Rightarrow> fstate \<Rightarrow> nat \<Rightarrow> fstate" where
  "first_result h st c = stage_result st (onEmit (h ! c), onError (h ! c))"

text \<open>The subscriber a job belongs to and the subscriber an entry of the log is about; the
  entries about a subscriber; a node that stands in no subscribers sequence, and one that
  moreover has no job in the queue.\<close>

fun owner :: "job \<Rightarrow> nat" where
  "owner (Job c k st rs) = c"

fun subject :: "event \<Rightarrow> nat" where
  "subject (Reaction c k st r) = c"

definition owned_events :: "nat \<Rightarrow> state \<Rightarrow> event list" where
  "owned_events c s = filter (\<lambda>e. subject e = c) (events s)"

definition unlisted :: "nat \<Rightarrow> node list \<Rightarrow> bool" where
  "unlisted c h \<longleftrightarrow> (\<forall>n < length h. c \<notin> set (subscribers (h ! n)))"

definition detached :: "nat \<Rightarrow> state \<Rightarrow> bool" where
  "detached c s \<longleftrightarrow> unlisted c (heap s) \<and> (\<forall>j \<in> set (queue s). owner j \<noteq> c)"

text \<open>The nodes a function value emits into when it is called, and those the handlers of
  a node emit into. \<open>downstream h n\<close> are the nodes that an emission into \<open>n\<close> can cause an
  emission into: the targets of the handlers of the subscribers of \<open>n\<close>, and so on from
  each such node.\<close>

fun targets :: "callable \<Rightarrow> nat set" where
  "targets (UserFn f) = {}"
| "targets (EmitBound m) = {m}"
| "targets EmitMethod = {}"
| "targets (NextErr m) = {m}"
| "targets (MergeOnError em) = targets em"

definition slot_targets :: "callable option \<Rightarrow> nat set" where
  "slot_targets a = (case a of None \<Rightarrow> {} | Some f \<Rightarrow> targets f)"

definition node_targets :: "node \<Rightarrow> nat set" where
  "node_targets nd = slot_targets (onEmit nd) \<union> slot_targets (onError nd) \<union> slot_targets (nextErr nd)"

inductive_set downstream :: "node list \<Rightarrow> nat \<Rightarrow> nat set" for h n where
  child: "n < length h \<Longrightarrow> c \<in> set (subscribers (h ! n)) \<Longrightarrow> m \<in> node_targets (h ! c)
          \<Longrightarrow> m \<in> downstream h n"
| step: "m \<in> downstream h n \<Longrightarrow> m < length h \<Longrightarrow> c \<in> set (subscribers (h ! m))
          \<Longrightarrow> m' \<in> node_targets (h ! c) \<Longrightarrow> m' \<in> downstream h n"

text \<open>The arrivals at a subscriber are the entries of the first stage of its chains. A job
  is in order for a set of nodes when its handlers emit into those nodes only.\<close>

fun stage :: "job \<Rightarrow> nat" where
  "stage (Job c k st rs) = k"

fun reactions :: "job \<Rightarrow> reaction list" where
  "reactions (Job c k st rs) = rs"

fun stage_of :: "event \<Rightarrow> nat" where
  "stage_of (Reaction c k st r) = k"

definition arrivals :: "nat \<Rightarrow> event list \<Rightarrow> event list" where
  "arrivals c es = filter (\<lambda>e. subject e = c \<and> stage_of e = 1) es"

definition job_ok :: "nat set \<Rightarrow> job \<Rightarrow> bool" where
  "job_ok D j \<longleftrightarrow> 1 \<le> stage j
     \<and> (\<forall>r \<in> set (reactions j). slot_targets (fst r) \<subseteq> D \<and> slot_targets (snd r) \<subseteq> D)"

text \<open>The arrivals at a subscriber that are logged or will be when the jobs now in the
  queue run; the plain values a sequence of operations emits.\<close>

definition foreseen :: "nat \<Rightarrow> state \<Rightarrow> event list" where
  "foreseen c s = arrivals c (events s) @ arrivals c (concat (map ev (queue s)))"

fun plain_emits :: "op list \<Rightarrow> plain list" where
  "plain_emits [] = []"
| "plain_emits (Emit m (Plain v) # xs) = v # plain_emits xs"
| "plain_emits (x # xs) = plain_emits xs"

text \<open>The settled value an entry of the log arrived with.\<close>

definition arrived :: "event \<Rightarrow> fstate" where
  "arrived e = (case e of Reaction c k st r \<Rightarrow> st)"

text \<open>Two root nodes, created directly.\<close>

definition two_roots :: state where
  "two_roots = snd (new_Observable None (snd (new_Observable None init)))"

text \<open>A sequence of operations: a root, two subscribers, an unsubscribe, an emission
  and a turn of the queue, a further subscription, and a merge of two of the nodes.\<close>

definition sample_ops :: "op list" where
  "sample_ops = [Construct [], Subscribe 0 None None, Subscribe 0 None None, Unsubscribe 1,
                 Emit 0 (Plain (Num 1)), Tick, Subscribe 2 None None, Merge [0, 2]]"

text \<open>The error handler \<^verbatim>\<open>err => err.message\<close>.\<close>

definition message_of :: callable where
  "message_of = UserFn (\<lambda>err. case err of Plain (Error m) \<Rightarrow> Return (Plain (Str m))
                                 | _ \<Rightarrow> Return (Plain Undefined))"

text \<open>A root, a subscriber of it with no handler, and a subscriber of that one with an
  error handler.\<close>

definition relay :: state where
  "relay = exec_all [Construct [], Subscribe 0 None None, Subscribe 1 None (Some message_of)] init"

text \<open>The transform \<^verbatim>\<open>v => { throw new Error("x") }\<close>, and the scenario of the claim.\<close>

definition thrower :: callable where
  "thrower = UserFn (\<lambda>v. Throw (Plain (Error ''x'')))"

definition thrown :: state where
  "thrown = exec_all [Construct [], Subscribe 0 (Some thrower) None, Subscribe 1 None (Some message_of)] init"

text \<open>What a subscriber has received: the settled values on which the first stage of its
  chains ran, in the order of the log.\<close>

definition received :: "nat \<Rightarrow> state \<Rightarrow> fstate list" where
  "received c s =
     concat (map (\<lambda>e. case e of Reaction c' k st r \<Rightarrow> if c' = c \<and> k = 1 then [st] else []) (events s))"

text \<open>The identity transform \<^verbatim>\<open>v => v\<close>.\<close>

definition ident :: callable where
  "ident = UserFn (\<lambda>v. Return v)"

text \<open>Two roots \<open>0\<close> and \<open>1\<close>, their merge \<open>2\<close> (with the bridges \<open>3\<close> and \<open>4\<close>), and a
  subscriber \<open>5\<close> of the merged node.\<close>

definition merged_pair :: state where
  "merged_pair = exec_all [Construct [], Construct [], Merge [0, 1], Subscribe 2 (Some ident) None] init"

text \<open>A root with the subscribers \<open>1\<close> and \<open>2\<close>; the node \<open>3\<close> subscribes to \<open>1\<close>.\<close>

definition family :: state where
  "family = exec_all [Construct [], Subscribe 0 (Some ident) None, Subscribe 0 (Some ident) None,
                      Subscribe 1 (Some ident) None] init"

text \<open>A root with two subscribers, one with the identity transform and one with no
  handler, and the two emissions of the scenario.\<close>

definition recorders :: state where
  "recorders = exec_all [Construct [], Subscribe 0 (Some ident) None, Subscribe 0 None None] init"

definition two_emits :: "op list" where
  "two_emits = [Emit 0 (Plain (Num 1)), Emit 0 (Plain (Num 2))]"

text \<open>The transform \<^verbatim>\<open>v => new Promise(() => {})\<close>, which returns a future that never
  settles.\<close>

definition never :: callable where
  "never = UserFn (\<lambda>v. Return (Promise Pending))"

text \<open>A root with the subscribers \<open>1\<close> (the identity transform) and \<open>2\<close> (the
  never-settling transform); \<open>3\<close> subscribes to \<open>1\<close> and \<open>4\<close> to \<open>2\<close>.\<close>

definition fork :: state where
  "fork = exec_all [Construct [], Subscribe 0 (Some ident) None, Subscribe 0 (Some never) None,
                    Subscribe 1 (Some ident) None, Subscribe 2 (Some ident) None] init"

section \<open>What one step of the model does\<close>

lemma promise_resolve_resolved: "promise_resolve val = Future (resolved val) []"
  by (cases val) (simp_all add: promise_resolve_def)

lemma schedule_chain:
  "schedule c (promise_then (promise_then (promise_resolve val) a b) d e) s
     = s\<lparr>queue := queue s @ (if resolved val = Pending then [] else [Job c 1 (resolved val) [(a, b), (d, e)]])\<rparr>"
  by (simp add: promise_resolve_resolved)

lemma emit_loop_eq:
  "len = length (subscribers (heap s ! this)) \<Longrightarrow> i \<le> len \<Longrightarrow>
   emit_loop this val i len s
     = s\<lparr>queue := queue s @ jobs_of (heap s) val (drop i (subscribers (heap s ! this)))\<rparr>"
proof (induction this val i len s rule: emit_loop.induct)
  case (1 this val i len s)
  show ?case
  proof (cases "i < len")
    case False
    with "1.prems" show ?thesis by (subst emit_loop.simps) (simp add: jobs_of_def)
  next
    case True
    let ?subs = "subscribers (heap s ! this)"
    let ?c = "?subs ! i"
    let ?s' = "s\<lparr>queue := queue s @ job_of (heap s) val ?c\<rparr>"
    have step: "emit_loop this val i len s = emit_loop this val (i + 1) len ?s'"
      using True "1.prems" by (subst emit_loop.simps) (simp add: schedule_chain job_of_def Let_def del: schedule.simps promise_then.simps)
    have IH: "emit_loop this val (i + 1) len ?s'
                = ?s'\<lparr>queue := queue ?s' @ jobs_of (heap ?s') val (drop (i + 1) (subscribers (heap ?s' ! this)))\<rparr>"
      using True "1.prems" "1.IH"[of ?c "heap s ! ?c"]
      by (simp add: schedule_chain job_of_def del: schedule.simps promise_then.simps)
    have "drop i ?subs = ?c # drop (i + 1) ?subs"
      using True "1.prems" by (simp add: Cons_nth_drop_Suc)
    then show ?thesis
      unfolding step IH by (simp add: jobs_of_def)
  qed
qed

lemma emit_eq:
  "emit this val s = s\<lparr>queue := queue s @ jobs_of (heap s) val (subs_of (heap s) this)\<rparr>"
  by (simp add: emit_def emit_loop_eq subs_of_def jobs_of_def)

lemma emit_heap [simp]: "heap (emit this val s) = heap s"
  by (simp add: emit_eq)

lemma emit_events [simp]: "events (emit this val s) = events s"
  by (simp add: emit_eq)

lemma emit_queue: "queue (emit this val s) = queue s @ jobs_of (heap s) val (subs_of (heap s) this)"
  by (simp add: emit_eq)

lemma invoke_eq:
  "invoke c v s = (inv_out c v, s\<lparr>queue := queue s @ inv_jobs (heap s) c v\<rparr>)"
  by (induction c arbitrary: v s) (auto simp: emit_eq split: outcome.splits)

lemma run_job_eq:
  "run_job j s = s\<lparr>queue := queue s @ spawn (heap s) j, events := events s @ ev j\<rparr>"
proof (cases j)
  case (Job c k st rs)
  show ?thesis
  proof (cases rs)
    case Nil
    with Job show ?thesis by simp
  next
    case (Cons r rs')
    show ?thesis
    proof (cases "select st r")
      case None
      with Job Cons show ?thesis by (simp add: stage_result_def)
    next
      case (Some f)
      with Job Cons show ?thesis by (simp add: stage_result_def invoke_eq)
    qed
  qed
qed

lemma tick_Nil: "queue s = [] \<Longrightarrow> tick s = s"
  by (simp add: tick_def)

lemma tick_Cons:
  "queue s = j # q \<Longrightarrow> tick s = s\<lparr>queue := q @ spawn (heap s) j, events := events s @ ev j\<rparr>"
  by (simp add: tick_def run_job_eq)

lemma tick_heap [simp]: "heap (tick s) = heap s"
  by (cases "queue s") (simp_all add: tick_Nil tick_Cons)

lemma run_heap [simp]: "heap (run k s) = heap s"
  by (induction k arbitrary: s) simp_all

lemma run_add: "run (k + m) s = run m (run k s)"
  by (induction k arbitrary: s) simp_all

lemma run_quiescent: "queue s = [] \<Longrightarrow> run k s = s"
  by (induction k) (simp_all add: tick_Nil)

section \<open>The structure of the store\<close>

lemma subscribe_eq:
  assumes "self < length (heap s)"
  shows "subscribe self a b s =
           (length (heap s),
            s\<lparr>heap := (heap s)[self := push (length (heap s)) (heap s ! self)]
                          @ [fresh (length (heap s)) self a b]\<rparr>)"
  using assms
  by (simp add: subscribe_def new_Observable_def upd_node_def Let_def fresh_def push_def
        nth_append list_update_append)

lemma indexOf_notin: "x \<notin> set xs \<Longrightarrow> indexOf xs x = -1"
  by (induction xs) (auto simp: Let_def)

lemma indexOf_in: "x \<in> set xs \<Longrightarrow> 0 \<le> indexOf xs x \<and> nat (indexOf xs x) < length xs
   \<and> xs ! nat (indexOf xs x) = x \<and> x \<notin> set (take (nat (indexOf xs x)) xs)"
proof (induction xs)
  case Nil then show ?case by simp
next
  case (Cons y ys)
  show ?case
  proof (cases "y = x")
    case True then show ?thesis by simp
  next
    case False
    with Cons have IH: "0 \<le> indexOf ys x \<and> nat (indexOf ys x) < length ys
   \<and> ys ! nat (indexOf ys x) = x \<and> x \<notin> set (take (nat (indexOf ys x)) ys)" by simp
    then have "nat (indexOf ys x + 1) = Suc (nat (indexOf ys x))" by arith
    with False IH show ?thesis by (simp add: Let_def)
  qed
qed

lemma remove1_take_drop:
  "i < length xs \<Longrightarrow> xs ! i = x \<Longrightarrow> x \<notin> set (take i xs) \<Longrightarrow> remove1 x xs = take i xs @ drop (Suc i) xs"
proof (induction xs arbitrary: i)
  case Nil then show ?case by simp
next
  case (Cons y ys)
  then show ?case by (cases i) auto
qed

lemma splice_at:
  assumes "0 \<le> k" "k < int (length xs)"
  shows "splice_js k 1 xs = take (nat k) xs @ drop (Suc (nat k)) xs"
proof -
  have a: "(if k < 0 then max (int (length xs) + k) 0 else min k (int (length xs))) = k"
    using assms by simp
  have b: "min (max (1::int) 0) (int (length xs) - k) = 1"
    using assms by simp
  have c: "nat (k + 1) = Suc (nat k)"
    using assms by arith
  show ?thesis
    unfolding splice_js_def Let_def a b c ..
qed

lemma splice_last: "splice_js (-1) 1 xs = butlast xs"
proof (cases "xs = []")
  case True
  then show ?thesis by (simp add: splice_js_def)
next
  case False
  then have len: "1 \<le> int (length xs)" by (cases xs) auto
  have a: "(if (-1::int) < 0 then max (int (length xs) + (-1)) 0 else min (-1) (int (length xs)))
             = int (length xs) - 1"
    using len by simp
  have b: "min (max (1::int) 0) (int (length xs) - (int (length xs) - 1)) = 1"
    by simp
  have c: "nat (int (length xs) - 1) = length xs - 1" "nat (int (length xs) - 1 + 1) = length xs"
    using len by auto
  show ?thesis
    unfolding splice_js_def Let_def a b c by (simp add: butlast_conv_take)
qed

lemma splice_indexOf_in:
  assumes "x \<in> set xs"
  shows "splice_js (indexOf xs x) 1 xs = remove1 x xs"
proof -
  let ?k = "indexOf xs x"
  from indexOf_in [OF assms] have k: "0 \<le> ?k" "nat ?k < length xs" "xs ! nat ?k = x"
    "x \<notin> set (take (nat ?k) xs)" by auto
  then have "?k < int (length xs)" by linarith
  with k have "splice_js ?k 1 xs = take (nat ?k) xs @ drop (Suc (nat ?k)) xs"
    by (simp only: splice_at)
  also have "\<dots> = remove1 x xs"
    using remove1_take_drop [OF k(2) k(3) k(4)] by simp
  finally show ?thesis .
qed

lemma splice_indexOf_notin:
  assumes "x \<notin> set xs"
  shows "splice_js (indexOf xs x) 1 xs = butlast xs"
  unfolding indexOf_notin [OF assms] by (rule splice_last)

lemma unsubscribe_root: "publisher (heap s ! this) = None \<Longrightarrow> unsubscribe this s = s"
  by (simp add: unsubscribe_def)

lemma unsubscribe_present:
  "publisher (heap s ! this) = Some p \<Longrightarrow> this \<in> set (subscribers (heap s ! p)) \<Longrightarrow>
   unsubscribe this s = s\<lparr>heap := (heap s)[p := (heap s ! p)\<lparr>subscribers := remove1 this (subscribers (heap s ! p))\<rparr>]\<rparr>"
  by (simp add: unsubscribe_def upd_node_def splice_indexOf_in)

lemma unsubscribe_absent:
  "publisher (heap s ! this) = Some p \<Longrightarrow> this \<notin> set (subscribers (heap s ! p)) \<Longrightarrow>
   unsubscribe this s = s\<lparr>heap := (heap s)[p := (heap s ! p)\<lparr>subscribers := butlast (subscribers (heap s ! p))\<rparr>]\<rparr>"
  by (simp add: unsubscribe_def upd_node_def splice_indexOf_notin)

lemma merge_exec_eq:
  "merge_exec xs em s = ([], foldl (\<lambda>s x. snd (subscribe x (Some em) (Some (MergeOnError em)) s)) s xs)"
proof (induction xs arbitrary: s)
  case Nil
  show ?case by (subst merge_exec.simps) simp
next
  case (Cons x xs)
  show ?case by (subst merge_exec.simps) (simp add: Cons.IH)
qed

lemma slots_snoc: "slots n (xs @ [x]) = slots n xs @ (if x = n then [length xs] else [])"
proof -
  have "filter (\<lambda>i. (xs @ [x]) ! i = n) [0..<length xs] = filter (\<lambda>i. xs ! i = n) [0..<length xs]"
    by (rule filter_cong) (auto simp: nth_append)
  then show ?thesis by (simp add: slots_def)
qed

lemma bridges_fold:
  assumes "\<forall>x \<in> set xs. x < length (heap s)"
  shows "\<exists>h'. foldl (\<lambda>s x. snd (subscribe x (Some em) (Some (MergeOnError em)) s)) s xs = s\<lparr>heap := h'\<rparr>
              \<and> bridged (heap s) em xs h'"
  using assms
proof (induction xs rule: rev_induct)
  case Nil
  have "bridged (heap s) em [] (heap s)" by (simp add: bridged_def slots_def)
  then show ?case by (intro exI [of _ "heap s"]) simp
next
  case (snoc x xs)
  let ?f = "\<lambda>s x. snd (subscribe x (Some em) (Some (MergeOnError em)) s)"
  let ?L = "length (heap s)"
  from snoc obtain h' where h': "foldl ?f s xs = s\<lparr>heap := h'\<rparr>" "bridged (heap s) em xs h'"
    by auto
  from snoc.prems have x: "x < ?L" by simp
  from h'(2) have len: "length h' = ?L + length xs" by (simp add: bridged_def)
  let ?h'' = "h'[x := push (length h') (h' ! x)] @ [fresh (length h') x (Some em) (Some (MergeOnError em))]"
  have step: "foldl ?f s (xs @ [x]) = s\<lparr>heap := ?h''\<rparr>"
    using x len by (simp add: h'(1) subscribe_eq)
  have "bridged (heap s) em (xs @ [x]) ?h''"
    unfolding bridged_def
  proof (intro conjI allI impI)
    show "length ?h'' = ?L + length (xs @ [x])" using len by simp
  next
    fix n assume n: "n < ?L"
    with h'(2) have old: "h' ! n = (heap s ! n)\<lparr>subscribers := subscribers (heap s ! n) @ map (\<lambda>i. ?L + i) (slots n xs)\<rparr>"
      by (simp add: bridged_def)
    show "?h'' ! n = (heap s ! n)\<lparr>subscribers := subscribers (heap s ! n) @ map (\<lambda>i. ?L + i) (slots n (xs @ [x]))\<rparr>"
      using n len old by (cases "n = x") (simp_all add: nth_append push_def slots_snoc)
  next
    fix i assume i: "i < length (xs @ [x])"
    show "?h'' ! (?L + i) = fresh (?L + i) ((xs @ [x]) ! i) (Some em) (Some (MergeOnError em))"
    proof (cases "i < length xs")
      case True
      with h'(2) have "h' ! (?L + i) = fresh (?L + i) (xs ! i) (Some em) (Some (MergeOnError em))"
        by (simp add: bridged_def)
      with True x len show ?thesis by (simp add: nth_append)
    next
      case False
      with i have "i = length xs" by simp
      with len show ?thesis by (simp add: nth_append)
    qed
  qed
  with step show ?case by blast
qed

lemma new_Observable_None: "new_Observable None s = (length (heap s), s\<lparr>heap := heap s @ [blank]\<rparr>)"
  by (simp add: new_Observable_def blank_def)

lemma slots_none: "\<forall>x \<in> set xs. x \<noteq> n \<Longrightarrow> slots n xs = []"
  by (auto simp: slots_def filter_empty_conv)

lemma slots_distinct: "distinct xs \<Longrightarrow> i < length xs \<Longrightarrow> slots (xs ! i) xs = [i]"
proof (induction xs arbitrary: i rule: rev_induct)
  case Nil
  then show ?case by simp
next
  case (snoc x xs)
  show ?case
  proof (cases "i < length xs")
    case True
    with snoc.prems have "x \<noteq> xs ! i" by auto
    with True snoc show ?thesis by (simp add: slots_snoc nth_append)
  next
    case False
    with snoc.prems have i: "i = length xs" by simp
    from snoc.prems have "\<forall>y \<in> set xs. y \<noteq> x" by auto
    then have "slots x xs = []" by (rule slots_none)
    with i show ?thesis by (simp add: slots_snoc)
  qed
qed

lemma merge_eq:
  assumes "\<forall>x \<in> set xs. x < length (heap s)"
  shows "\<exists>h'. merge xs s = (length (heap s), s\<lparr>heap := h'\<rparr>)
              \<and> bridged (heap s @ [blank]) (EmitBound (length (heap s))) xs h'"
proof -
  let ?s1 = "s\<lparr>heap := heap s @ [blank]\<rparr>"
  from assms have "\<forall>x \<in> set xs. x < length (heap ?s1)" by auto
  from bridges_fold [OF this, of "EmitBound (length (heap s))"]
  obtain h' where h0: "foldl (\<lambda>s' x. snd (subscribe x (Some (EmitBound (length (heap s))))
                          (Some (MergeOnError (EmitBound (length (heap s))))) s')) ?s1 xs = ?s1\<lparr>heap := h'\<rparr>
      \<and> bridged (heap ?s1) (EmitBound (length (heap s))) xs h'" ..
  then have h': "foldl (\<lambda>s' x. snd (subscribe x (Some (EmitBound (length (heap s))))
                          (Some (MergeOnError (EmitBound (length (heap s))))) s')) ?s1 xs = ?s1\<lparr>heap := h'\<rparr>"
      "bridged (heap ?s1) (EmitBound (length (heap s))) xs h'"
    by simp_all
  have "merge xs s = (length (heap s), ?s1\<lparr>heap := h'\<rparr>)"
    by (simp add: merge_def genIterator_def new_Observable_def merge_exec_eq h'(1) blank_def [symmetric])
  with h'(2) show ?thesis by (intro exI [of _ h']) simp
qed

section \<open>Sequences of operations and the structural invariants\<close>

lemma concat_update:
  "i < length xss \<Longrightarrow> concat (xss[i := ys]) = concat (take i xss) @ ys @ concat (drop (Suc i) xss)"
  by (simp add: upd_conv_take_nth_drop)

lemma concat_split:
  "i < length xss \<Longrightarrow> concat xss = concat (take i xss) @ xss ! i @ concat (drop (Suc i) xss)"
  using concat_update [of i xss "xss ! i"] by simp

lemma map_subscribers_update:
  "map subscribers (h[p := (h ! p)\<lparr>subscribers := ys\<rparr>]) = (map subscribers h)[p := ys]"
  by (simp add: map_update)

lemma distinct_concat_shrink:
  assumes "distinct (concat xss)" "i < length xss" "set ys \<subseteq> set (xss ! i)" "distinct ys"
  shows "distinct (concat (xss[i := ys]))"
proof -
  from assms(1) concat_split [OF assms(2)]
  have "distinct (concat (take i xss) @ xss ! i @ concat (drop (Suc i) xss))" by simp
  with assms(3,4) have "distinct (concat (take i xss) @ ys @ concat (drop (Suc i) xss))"
    by auto
  with assms(2) show ?thesis by (simp only: concat_update)
qed

lemma distinct_concat_push:
  assumes "distinct (concat xss)" "i < length xss" "c \<notin> set (concat xss)"
  shows "distinct (concat (xss[i := xss ! i @ [c]]))"
proof -
  from assms(1,3) concat_split [OF assms(2)]
  have "distinct (concat (take i xss) @ xss ! i @ concat (drop (Suc i) xss))"
    and "c \<notin> set (concat (take i xss) @ xss ! i @ concat (drop (Suc i) xss))" by simp_all
  then have "distinct (concat (take i xss) @ (xss ! i @ [c]) @ concat (drop (Suc i) xss))"
    by auto
  with assms(2) show ?thesis by (simp only: concat_update)
qed

lemma tree_inv_blank:
  assumes "tree_inv h"
  shows "tree_inv (h @ [blank])"
proof -
  from assms have ids: "\<forall>n < length h. \<forall>c \<in> set (subscribers (h ! n)). n < c \<and> c < length h"
    and dist: "distinct (concat (map subscribers h))"
    and pub: "\<forall>n < length h. (publisher (h ! n) \<noteq> None) = by_subscribe (h ! n)"
    unfolding tree_inv_def by blast+
  have nth: "(h @ [blank]) ! n = (if n < length h then h ! n else blank)" if "n < Suc (length h)" for n
    using that by (auto simp: nth_append)
  have a: "\<forall>n < length (h @ [blank]). \<forall>c \<in> set (subscribers ((h @ [blank]) ! n)).
             n < c \<and> c < length (h @ [blank])"
  proof (intro allI impI ballI)
    fix n c assume n: "n < length (h @ [blank])" and c: "c \<in> set (subscribers ((h @ [blank]) ! n))"
    show "n < c \<and> c < length (h @ [blank])"
    proof (cases "n < length h")
      case True
      with c have "c \<in> set (subscribers (h ! n))" by (simp add: nth_append)
      with ids True have "n < c \<and> c < length h" by blast
      then show ?thesis by simp
    next
      case False
      with n have "n = length h" by simp
      with c show ?thesis by (simp add: blank_def)
    qed
  qed
  have b: "distinct (concat (map subscribers (h @ [blank])))"
    using dist by (simp add: blank_def)
  have c: "\<forall>n < length (h @ [blank]). (publisher ((h @ [blank]) ! n) \<noteq> None) = by_subscribe ((h @ [blank]) ! n)"
  proof (intro allI impI)
    fix n assume n: "n < length (h @ [blank])"
    show "(publisher ((h @ [blank]) ! n) \<noteq> None) = by_subscribe ((h @ [blank]) ! n)"
    proof (cases "n < length h")
      case True
      with pub have "(publisher (h ! n) \<noteq> None) = by_subscribe (h ! n)" by blast
      with True show ?thesis by (simp add: nth_append)
    next
      case False
      with n have "n = length h" by simp
      then show ?thesis by (simp add: blank_def)
    qed
  qed
  show ?thesis unfolding tree_inv_def by (intro conjI a b c)
qed

lemma tree_inv_subscribe:
  assumes "tree_inv (heap s)" "self < length (heap s)"
  shows "tree_inv (heap (snd (subscribe self a b s)))"
proof -
  let ?h = "heap s" and ?L = "length (heap s)"
  let ?h' = "?h[self := push ?L (?h ! self)] @ [fresh ?L self a b]"
  have h': "heap (snd (subscribe self a b s)) = ?h'"
    using assms(2) by (simp add: subscribe_eq)
  from assms(1) have ids: "\<forall>n < ?L. \<forall>c \<in> set (subscribers (?h ! n)). n < c \<and> c < ?L"
    and dist: "distinct (concat (map subscribers ?h))"
    and pub: "\<forall>n < ?L. (publisher (?h ! n) \<noteq> None) = by_subscribe (?h ! n)"
    unfolding tree_inv_def by blast+
  have nth: "?h' ! n = (if n = self then push ?L (?h ! self) else if n < ?L then ?h ! n else fresh ?L self a b)"
    if "n < Suc ?L" for n
    using that assms(2) by (auto simp: nth_append nth_list_update less_Suc_eq)
  have a: "\<forall>n < length ?h'. \<forall>c \<in> set (subscribers (?h' ! n)). n < c \<and> c < length ?h'"
  proof (intro allI impI ballI)
    fix n c assume n: "n < length ?h'" and c: "c \<in> set (subscribers (?h' ! n))"
    from n have "n < Suc ?L" by simp
    show "n < c \<and> c < length ?h'"
    proof (cases "n = self")
      case True
      with nth [OF \<open>n < Suc ?L\<close>] c have "c \<in> set (subscribers (?h ! self)) \<or> c = ?L"
        by (auto simp: push_def)
      then show ?thesis
      proof
        assume "c \<in> set (subscribers (?h ! self))"
        with ids assms(2) have "self < c \<and> c < ?L" by blast
        with True show ?thesis by simp
      next
        assume "c = ?L"
        with assms(2) True show ?thesis by simp
      qed
    next
      case False
      show ?thesis
      proof (cases "n < ?L")
        case True
        with False nth [OF \<open>n < Suc ?L\<close>] c have "c \<in> set (subscribers (?h ! n))" by simp
        with ids True have "n < c \<and> c < ?L" by blast
        then show ?thesis by simp
      next
        case nl: False
        with False nth [OF \<open>n < Suc ?L\<close>] c show ?thesis by (simp add: fresh_def)
      qed
    qed
  qed
  have notin: "?L \<notin> set (concat (map subscribers ?h))"
  proof
    assume "?L \<in> set (concat (map subscribers ?h))"
    then obtain nd where "nd \<in> set ?h" "?L \<in> set (subscribers nd)" by auto
    then obtain n where "n < ?L" "?L \<in> set (subscribers (?h ! n))"
      by (auto simp: in_set_conv_nth)
    with ids have "n < ?L \<and> ?L < ?L" by blast
    then show False by simp
  qed
  have "map subscribers ?h' = (map subscribers ?h)[self := map subscribers ?h ! self @ [?L]] @ [[]]"
    using assms(2) by (simp add: map_update push_def fresh_def)
  moreover have "distinct (concat ((map subscribers ?h)[self := map subscribers ?h ! self @ [?L]]))"
    using dist assms(2) notin by (intro distinct_concat_push) simp_all
  ultimately have b: "distinct (concat (map subscribers ?h'))" by simp
  have c: "\<forall>n < length ?h'. (publisher (?h' ! n) \<noteq> None) = by_subscribe (?h' ! n)"
  proof (intro allI impI)
    fix n assume "n < length ?h'"
    then have n: "n < Suc ?L" by simp
    show "(publisher (?h' ! n) \<noteq> None) = by_subscribe (?h' ! n)"
    proof (cases "n < ?L")
      case True
      with pub have "(publisher (?h ! n) \<noteq> None) = by_subscribe (?h ! n)" by blast
      with nth [OF n] True show ?thesis by (cases "n = self") (auto simp: push_def)
    next
      case False
      with nth [OF n] assms(2) show ?thesis by (simp add: fresh_def)
    qed
  qed
  show ?thesis unfolding h' tree_inv_def by (intro conjI a b c)
qed

lemma splice_indexOf_sub:
  "set (splice_js (indexOf xs x) 1 xs) \<subseteq> set xs
   \<and> (distinct xs \<longrightarrow> distinct (splice_js (indexOf xs x) 1 xs))"
proof (cases "x \<in> set xs")
  case True
  then show ?thesis by (simp add: splice_indexOf_in set_remove1_subset)
next
  case False
  then show ?thesis by (auto simp: splice_indexOf_notin distinct_butlast dest: in_set_butlastD)
qed

lemma tree_inv_shrink:
  assumes "tree_inv h" "set ys \<subseteq> set (subscribers (h ! p))" "distinct ys"
  shows "tree_inv (h[p := (h ! p)\<lparr>subscribers := ys\<rparr>])"
proof (cases "p < length h")
  case False
  then have "h[p := (h ! p)\<lparr>subscribers := ys\<rparr>] = h" by (simp add: list_update_beyond)
  with assms(1) show ?thesis by simp
next
  case True
  let ?h' = "h[p := (h ! p)\<lparr>subscribers := ys\<rparr>]"
  from assms(1) have ids: "\<forall>n < length h. \<forall>c \<in> set (subscribers (h ! n)). n < c \<and> c < length h"
    and dist: "distinct (concat (map subscribers h))"
    and pub: "\<forall>n < length h. (publisher (h ! n) \<noteq> None) = by_subscribe (h ! n)"
    unfolding tree_inv_def by blast+
  have a: "\<forall>n < length ?h'. \<forall>c \<in> set (subscribers (?h' ! n)). n < c \<and> c < length ?h'"
  proof (intro allI impI ballI)
    fix n c assume n: "n < length ?h'" and c: "c \<in> set (subscribers (?h' ! n))"
    from n c assms(2) have "c \<in> set (subscribers (h ! n))"
      by (cases "n = p") (auto simp: nth_list_update)
    moreover from n have "n < length h" by simp
    ultimately have "n < c \<and> c < length h" using ids by blast
    then show "n < c \<and> c < length ?h'" by simp
  qed
  have "distinct (concat ((map subscribers h)[p := ys]))"
    using dist True assms(2,3) by (intro distinct_concat_shrink) simp_all
  then have b: "distinct (concat (map subscribers ?h'))"
    by (simp only: map_subscribers_update)
  have c: "\<forall>n < length ?h'. (publisher (?h' ! n) \<noteq> None) = by_subscribe (?h' ! n)"
  proof (intro allI impI)
    fix n assume "n < length ?h'"
    then have n: "n < length h" by simp
    with pub have "(publisher (h ! n) \<noteq> None) = by_subscribe (h ! n)" by blast
    with n show "(publisher (?h' ! n) \<noteq> None) = by_subscribe (?h' ! n)"
      by (cases "n = p") (simp_all add: nth_list_update)
  qed
  show ?thesis unfolding tree_inv_def by (intro conjI a b c)
qed

lemma tree_inv_distinct:
  assumes "tree_inv h" "p < length h"
  shows "distinct (subscribers (h ! p))"
proof -
  from assms(1) have "distinct (concat (map subscribers h))" unfolding tree_inv_def by blast
  with concat_split [of p "map subscribers h"] assms(2) show ?thesis by simp
qed

lemma tree_inv_unsubscribe:
  assumes "tree_inv (heap s)"
  shows "tree_inv (heap (unsubscribe this s))"
proof (cases "publisher (heap s ! this)")
  case None
  with assms show ?thesis by (simp add: unsubscribe_def)
next
  case (Some p)
  let ?subs = "subscribers (heap s ! p)"
  let ?ys = "splice_js (indexOf ?subs this) 1 ?subs"
  have h': "heap (unsubscribe this s) = (heap s)[p := (heap s ! p)\<lparr>subscribers := ?ys\<rparr>]"
    using Some by (simp add: unsubscribe_def upd_node_def)
  show ?thesis
  proof (cases "p < length (heap s)")
    case False
    then have "heap (unsubscribe this s) = heap s" unfolding h' by (simp add: list_update_beyond)
    with assms show ?thesis by simp
  next
    case True
    from tree_inv_distinct [OF assms True] splice_indexOf_sub [of ?subs this]
    have "set ?ys \<subseteq> set ?subs" "distinct ?ys" by simp_all
    with assms show ?thesis unfolding h' by (rule tree_inv_shrink)
  qed
qed

lemma invoke_heap [simp]: "heap (snd (invoke c v s)) = heap s"
  by (simp add: invoke_eq)

lemma invoke_fold_heap [simp]: "heap (foldl (\<lambda>s'' v. snd (invoke em v s'')) s vs) = heap s"
  by (induction vs arbitrary: s) simp_all

lemma emit_fold_heap [simp]: "heap (foldl (\<lambda>s'' v. emit n v s'') s vs) = heap s"
  by (induction vs arbitrary: s) simp_all

lemma tree_inv_fold_subscribe:
  assumes "tree_inv (heap s)" "\<forall>x \<in> set xs. x < length (heap s)"
  shows "tree_inv (heap (foldl (\<lambda>s x. snd (subscribe x a b s)) s xs))"
  using assms
proof (induction xs arbitrary: s)
  case Nil
  then show ?case by simp
next
  case (Cons x xs)
  let ?s' = "snd (subscribe x a b s)"
  from Cons.prems have x: "x < length (heap s)" by simp
  then have "length (heap ?s') = Suc (length (heap s))" by (simp add: subscribe_eq)
  with Cons.prems have "\<forall>y \<in> set xs. y < length (heap ?s')" by auto
  moreover from Cons.prems(1) x have "tree_inv (heap ?s')" by (rule tree_inv_subscribe)
  ultimately show ?case using Cons.IH [of ?s'] by simp
qed

lemma tree_inv_merge:
  assumes "tree_inv (heap s)" "\<forall>x \<in> set xs. x < length (heap s)"
  shows "tree_inv (heap (snd (merge xs s)))"
proof -
  let ?s1 = "s\<lparr>heap := heap s @ [blank]\<rparr>"
  have "tree_inv (heap ?s1)" using assms(1) by (simp add: tree_inv_blank)
  moreover have "\<forall>x \<in> set xs. x < length (heap ?s1)" using assms(2) by auto
  ultimately have "tree_inv (heap (foldl (\<lambda>s' x. snd (subscribe x (Some (EmitBound (length (heap s))))
       (Some (MergeOnError (EmitBound (length (heap s))))) s')) ?s1 xs))"
    by (rule tree_inv_fold_subscribe)
  then show ?thesis
    by (simp add: merge_def genIterator_def new_Observable_def merge_exec_eq blank_def [symmetric] Let_def)
qed

lemma tree_inv_exec: "tree_inv (heap s) \<Longrightarrow> tree_inv (heap (exec x s))"
proof (cases x)
  case (Construct vs)
  assume "tree_inv (heap s)"
  then have "tree_inv (heap s @ [blank])" by (rule tree_inv_blank)
  with Construct show ?thesis by (simp add: new_Observable_def blank_def [symmetric] Let_def)
next
  case (Subscribe n a b)
  assume "tree_inv (heap s)"
  with Subscribe show ?thesis by (simp add: tree_inv_subscribe)
next
  case (Unsubscribe n)
  assume "tree_inv (heap s)"
  with Unsubscribe show ?thesis by (simp add: tree_inv_unsubscribe)
next
  case (Emit n v)
  assume "tree_inv (heap s)"
  with Emit show ?thesis by simp
next
  case (Merge xs)
  assume "tree_inv (heap s)"
  with Merge show ?thesis by (simp add: tree_inv_merge)
next
  case Tick
  assume "tree_inv (heap s)"
  with Tick show ?thesis by simp
qed

lemma tree_inv_exec_all: "tree_inv (heap s) \<Longrightarrow> tree_inv (heap (exec_all ops s))"
  unfolding exec_all_def
  by (induction ops arbitrary: s) (simp_all add: tree_inv_exec)

section \<open>Runs of the event queue\<close>

lemma tick_events_ext: "\<exists>es. events (tick s) = events s @ es"
  by (cases "queue s") (simp_all add: tick_Nil tick_Cons)

lemma run_events_ext: "\<exists>es. events (run k s) = events s @ es"
proof (induction k arbitrary: s)
  case 0
  show ?case by simp
next
  case (Suc k)
  from tick_events_ext [of s] obtain es where a: "events (tick s) = events s @ es" ..
  from Suc [of "tick s"] obtain es' where "events (run k (tick s)) = events (tick s) @ es'" ..
  with a show ?case by simp
qed

lemma run_events_mono:
  assumes "k \<le> k'"
  shows "set (events (run k s)) \<subseteq> set (events (run k' s))"
proof -
  from assms have "run k' s = run (k' - k) (run k s)"
    using run_add [of k "k' - k" s] by simp
  with run_events_ext [of "k' - k" "run k s"] show ?thesis by auto
qed

lemma deliveredI: "e \<in> set (events (run k s)) \<Longrightarrow> delivered e s"
  unfolding delivered_def using run_events_mono [of k _ s] by blast

lemma run_reaches:
  "queue s = q1 @ j # q2 \<Longrightarrow>
   \<exists>q' es. run (length q1) s = s\<lparr>queue := j # q2 @ q', events := events s @ es\<rparr>"
proof (induction q1 arbitrary: s q2)
  case Nil
  then have "run (length []) s = s\<lparr>queue := j # q2 @ [], events := events s @ []\<rparr>" by simp
  then show ?case by blast
next
  case (Cons a q1)
  let ?s1 = "tick s"
  from Cons.prems have t: "?s1 = s\<lparr>queue := (q1 @ j # q2) @ spawn (heap s) a, events := events s @ ev a\<rparr>"
    by (simp add: tick_Cons)
  then have "queue ?s1 = q1 @ j # (q2 @ spawn (heap s) a)" by simp
  from Cons.IH [OF this] obtain q' es where
    "run (length q1) ?s1 = ?s1\<lparr>queue := j # (q2 @ spawn (heap s) a) @ q', events := events ?s1 @ es\<rparr>"
    by blast
  with t have "run (length (a # q1)) s
      = s\<lparr>queue := j # q2 @ (spawn (heap s) a @ q'), events := events s @ (ev a @ es)\<rparr>"
    by simp
  then show ?case by blast
qed

lemma queued_job_runs:
  assumes "j \<in> set (queue s)"
  shows "\<exists>k. set (ev j) \<subseteq> set (events (run k s)) \<and> set (spawn (heap s) j) \<subseteq> set (queue (run k s))"
proof -
  from assms obtain q1 q2 where "queue s = q1 @ j # q2" by (auto simp: in_set_conv_decomp)
  from run_reaches [OF this] obtain q' es where
    r: "run (length q1) s = s\<lparr>queue := j # q2 @ q', events := events s @ es\<rparr>" by blast
  let ?s1 = "run (length q1) s"
  have "run (length q1 + 1) s = tick ?s1" using run_add [of "length q1" 1 s] by simp
  also have "\<dots> = ?s1\<lparr>queue := (q2 @ q') @ spawn (heap ?s1) j, events := events ?s1 @ ev j\<rparr>"
    using r by (intro tick_Cons) simp
  finally have "set (ev j) \<subseteq> set (events (run (length q1 + 1) s))
      \<and> set (spawn (heap s) j) \<subseteq> set (queue (run (length q1 + 1) s))"
    by auto
  then show ?thesis ..
qed

lemma arises_queued:
  "arises (heap s) (queue s) j \<Longrightarrow> \<exists>k. j \<in> set (queue (run k s))"
proof (induction rule: arises.induct)
  case (queued j)
  then have "j \<in> set (queue (run 0 s))" by simp
  then show ?case ..
next
  case (spawned j j')
  then obtain k where "j \<in> set (queue (run k s))" by blast
  from queued_job_runs [OF this] obtain k' where
    "set (spawn (heap (run k s)) j) \<subseteq> set (queue (run k' (run k s)))" by blast
  with spawned.hyps(2) have "j' \<in> set (queue (run (k + k') s))" by (auto simp: run_add)
  then show ?case ..
qed

lemma arises_delivered:
  assumes "arises (heap s) (queue s) j" "e \<in> set (ev j)"
  shows "delivered e s"
proof -
  from arises_queued [OF assms(1)] obtain k where "j \<in> set (queue (run k s))" ..
  from queued_job_runs [OF this] obtain k' where "set (ev j) \<subseteq> set (events (run k' (run k s)))"
    by blast
  with assms(2) have "e \<in> set (events (run (k + k') s))" by (auto simp: run_add)
  then show ?thesis by (rule deliveredI)
qed

lemma job_of_first: "job_of h val c = (if resolved val = Pending then [] else [first_job h (resolved val) c])"
  by (simp add: job_of_def first_job_def)

lemma jobs_of_mem:
  "c \<in> set cs \<Longrightarrow> resolved val \<noteq> Pending \<Longrightarrow> first_job h (resolved val) c \<in> set (jobs_of h val cs)"
  by (auto simp: jobs_of_def job_of_first)

lemma ev_first_job: "ev (first_job h st c) = [Reaction c 1 st (first_result h st c)]"
  by (simp add: first_job_def first_result_def)

lemma emit_arises:
  assumes "n < length (heap s)" "c \<in> set (subscribers (heap s ! n))" "resolved val \<noteq> Pending"
  shows "arises (heap s) (queue (emit n val s)) (first_job (heap s) (resolved val) c)"
  using assms by (intro arises.queued) (simp add: emit_queue subs_of_def jobs_of_mem)

lemma emit_delivers:
  assumes "n < length (heap s)" "c \<in> set (subscribers (heap s ! n))" "resolved val \<noteq> Pending"
  shows "delivered (Reaction c 1 (resolved val) (first_result (heap s) (resolved val) c)) (emit n val s)"
proof -
  from emit_arises [OF assms]
  have "arises (heap (emit n val s)) (queue (emit n val s)) (first_job (heap s) (resolved val) c)"
    by simp
  then show ?thesis by (rule arises_delivered) (simp add: ev_first_job)
qed

lemma resolved_reject [simp]: "resolved (promise_reject e) = Rejected e"
  by (simp add: promise_reject_def)

lemma bridge_delivers:
  assumes "src < length (heap s)" and "b \<in> set (subscribers (heap s ! src))"
    and "onEmit (heap s ! b) = Some (EmitBound m)"
    and "onError (heap s ! b) = Some (MergeOnError (EmitBound m))"
    and "m < length (heap s)" and "c \<in> set (subscribers (heap s ! m))"
    and "resolved val = st" and "st \<noteq> Pending"
  shows "delivered (Reaction c 1 st (first_result (heap s) st c)) (emit src val s)"
proof -
  let ?h = "heap s" and ?s' = "emit src val s"
  let ?j1 = "first_job ?h st b"
  from emit_arises [OF assms(1,2), of val] assms(7,8)
  have a1: "arises (heap ?s') (queue ?s') ?j1" by simp
  have "first_job ?h st c \<in> set (spawn ?h ?j1)"
  proof (cases st)
    case (Fulfilled v)
    with assms(3,5,6) jobs_of_mem [of c "subscribers (?h ! m)" "Plain v" ?h]
    show ?thesis by (simp add: first_job_def subs_of_def)
  next
    case (Rejected r)
    with assms(4,5,6) jobs_of_mem [of c "subscribers (?h ! m)" "promise_reject r" ?h]
    show ?thesis by (simp add: first_job_def subs_of_def)
  next
    case Pending
    with assms(8) show ?thesis by simp
  qed
  with a1 have "arises (heap ?s') (queue ?s') (first_job ?h st c)"
    by (simp add: arises.spawned)
  then show ?thesis by (rule arises_delivered) (simp add: ev_first_job)
qed

lemma slots_mem: "i < length xs \<Longrightarrow> i \<in> set (slots (xs ! i) xs)"
  by (simp add: slots_def)

lemma merge_exec_drained: "fst (merge_exec (genIterator xs) em s) = []"
  by (simp add: merge_exec_eq)

lemma run_settled:
  assumes "queue (run k0 s) = []"
  shows "set (events (run k s)) \<subseteq> set (events (run k0 s))"
proof -
  have "run (k + k0) s = run k0 s"
    using run_add [of k0 k s] run_quiescent [OF assms, of k] by (simp add: add.commute)
  with run_events_mono [of k "k + k0" s] show ?thesis by simp
qed

section \<open>Nodes that no publisher lists\<close>

lemma owner_jobs_of: "j \<in> set (jobs_of h v cs) \<Longrightarrow> owner j \<in> set cs"
  by (auto simp: jobs_of_def job_of_def split: if_splits)

lemma unlisted_subs_of: "unlisted c h \<Longrightarrow> c \<notin> set (subs_of h n)"
  by (simp add: unlisted_def subs_of_def)

lemma owner_inv_jobs: "unlisted c h \<Longrightarrow> j \<in> set (inv_jobs h f v) \<Longrightarrow> owner j \<noteq> c"
proof (induction f arbitrary: v)
  case (EmitBound n)
  then show ?case using owner_jobs_of unlisted_subs_of by fastforce
next
  case (NextErr n)
  then show ?case using owner_jobs_of unlisted_subs_of by fastforce
qed auto

lemma owner_spawn:
  assumes "unlisted c h" "owner j \<noteq> c" "j' \<in> set (spawn h j)"
  shows "owner j' \<noteq> c"
proof (cases j)
  case (Job c' k st rs)
  show ?thesis
  proof (cases rs)
    case Nil
    with Job assms(3) show ?thesis by simp
  next
    case (Cons r rs')
    with Job assms(3) have "(\<exists>f. j' \<in> set (inv_jobs h f (payload st))) \<or> owner j' = c'"
      by (auto split: option.splits if_splits)
    then show ?thesis
    proof
      assume "\<exists>f. j' \<in> set (inv_jobs h f (payload st))"
      then obtain f where "j' \<in> set (inv_jobs h f (payload st))" ..
      with assms(1) show ?thesis by (rule owner_inv_jobs)
    next
      assume "owner j' = c'"
      with assms(2) Job show ?thesis by simp
    qed
  qed
qed

lemma subject_ev: "e \<in> set (ev j) \<Longrightarrow> subject e = owner j"
  by (cases j rule: ev.cases) auto

lemma detached_emit:
  assumes "detached c s"
  shows "detached c (emit n v s)"
proof -
  from assms have u: "unlisted c (heap s)" and q: "\<forall>j \<in> set (queue s). owner j \<noteq> c"
    unfolding detached_def by blast+
  have "\<forall>j \<in> set (jobs_of (heap s) v (subs_of (heap s) n)). owner j \<noteq> c"
    using owner_jobs_of unlisted_subs_of [OF u] by fastforce
  with u q show ?thesis unfolding detached_def by (auto simp: emit_queue)
qed

lemma detached_tick:
  assumes "detached c s"
  shows "detached c (tick s) \<and> owned_events c (tick s) = owned_events c s"
proof (cases "queue s")
  case Nil
  with assms show ?thesis by (simp add: tick_Nil)
next
  case (Cons j q)
  from assms have u: "unlisted c (heap s)" and qs: "\<forall>j \<in> set (queue s). owner j \<noteq> c"
    unfolding detached_def by blast+
  from qs Cons have j: "owner j \<noteq> c" and q: "\<forall>j \<in> set q. owner j \<noteq> c" by simp_all
  have sp: "\<forall>j' \<in> set (spawn (heap s) j). owner j' \<noteq> c"
    using owner_spawn [OF u j] by blast
  have "filter (\<lambda>e. subject e = c) (ev j) = []"
    using subject_ev [of _ j] j by (auto simp: filter_empty_conv)
  with u q sp show ?thesis
    unfolding detached_def owned_events_def by (auto simp: tick_Cons [OF Cons])
qed

lemma merge_snd:
  "snd (merge xs s) = foldl (\<lambda>s' x. snd (subscribe x (Some (EmitBound (length (heap s))))
       (Some (MergeOnError (EmitBound (length (heap s))))) s')) (s\<lparr>heap := heap s @ [blank]\<rparr>) xs"
  by (simp add: merge_def genIterator_def new_Observable_def merge_exec_eq blank_def [symmetric] Let_def)

lemma construct_eq: "exec (Construct vs) s = s\<lparr>heap := heap s @ [blank]\<rparr>"
proof -
  let ?s1 = "s\<lparr>heap := heap s @ [blank]\<rparr>"
  have e: "emit (length (heap s)) v ?s1 = ?s1" for v
    by (simp add: emit_eq subs_of_def jobs_of_def blank_def)
  have "foldl (\<lambda>s'' v. snd (invoke (EmitBound (length (heap s))) v s'')) ?s1 vs = ?s1"
    by (induction vs) (simp_all add: e)
  then show ?thesis by (simp add: new_Observable_def blank_def [symmetric] Let_def)
qed

lemma subscribe_queue_events:
  "self < length (heap s) \<Longrightarrow>
   queue (snd (subscribe self a b s)) = queue s \<and> events (snd (subscribe self a b s)) = events s"
  by (simp add: subscribe_eq)

lemma unsubscribe_queue_events:
  "queue (unsubscribe x s) = queue s \<and> events (unsubscribe x s) = events s"
  by (simp add: unsubscribe_def upd_node_def split: option.splits)

lemma unlisted_blank: "unlisted c h \<Longrightarrow> unlisted c (h @ [blank])"
  unfolding unlisted_def by (auto simp: nth_append blank_def)

lemma unlisted_subscribe:
  assumes "unlisted c (heap s)" "c < length (heap s)" "self < length (heap s)"
  shows "unlisted c (heap (snd (subscribe self a b s)))"
proof -
  let ?h = "heap s" and ?L = "length (heap s)"
  let ?h' = "?h[self := push ?L (?h ! self)] @ [fresh ?L self a b]"
  have h': "heap (snd (subscribe self a b s)) = ?h'"
    using assms(3) by (simp add: subscribe_eq)
  have "c \<notin> set (subscribers (?h' ! n))" if "n < length ?h'" for n
  proof (cases "n < ?L")
    case True
    with assms(1) have "c \<notin> set (subscribers (?h ! n))" unfolding unlisted_def by blast
    with True assms(2) show ?thesis
      by (cases "n = self") (simp_all add: nth_append push_def)
  next
    case False
    with that have "n = ?L" by simp
    then show ?thesis by (simp add: nth_append fresh_def)
  qed
  then show ?thesis unfolding h' unlisted_def by blast
qed

lemma unlisted_unsubscribe:
  assumes "unlisted c (heap s)"
  shows "unlisted c (heap (unsubscribe x s))"
proof (cases "publisher (heap s ! x)")
  case None
  with assms show ?thesis by (simp add: unsubscribe_def)
next
  case (Some p)
  let ?subs = "subscribers (heap s ! p)"
  let ?ys = "splice_js (indexOf ?subs x) 1 ?subs"
  let ?h' = "(heap s)[p := (heap s ! p)\<lparr>subscribers := ?ys\<rparr>]"
  have h': "heap (unsubscribe x s) = ?h'"
    using Some by (simp add: unsubscribe_def upd_node_def)
  have sub: "set ?ys \<subseteq> set ?subs" using splice_indexOf_sub [of ?subs x] by simp
  have "c \<notin> set (subscribers (?h' ! n))" if "n < length ?h'" for n
  proof -
    from that have n: "n < length (heap s)" by simp
    with assms have "c \<notin> set (subscribers (heap s ! n))" unfolding unlisted_def by blast
    with n sub show ?thesis by (cases "n = p") (auto simp: nth_list_update)
  qed
  then show ?thesis unfolding h' unlisted_def by blast
qed

lemma fold_subscribe_detached:
  assumes "unlisted c (heap s)" "c < length (heap s)" "\<forall>x \<in> set xs. x < length (heap s)"
  shows "unlisted c (heap (foldl (\<lambda>s' x. snd (subscribe x a b s')) s xs))
     \<and> length (heap s) \<le> length (heap (foldl (\<lambda>s' x. snd (subscribe x a b s')) s xs))
     \<and> queue (foldl (\<lambda>s' x. snd (subscribe x a b s')) s xs) = queue s
     \<and> events (foldl (\<lambda>s' x. snd (subscribe x a b s')) s xs) = events s"
  using assms
proof (induction xs arbitrary: s)
  case Nil
  then show ?case by simp
next
  case (Cons x xs)
  let ?s' = "snd (subscribe x a b s)"
  from Cons.prems have x: "x < length (heap s)" by simp
  then have len: "length (heap ?s') = Suc (length (heap s))" by (simp add: subscribe_eq)
  have u: "unlisted c (heap ?s')" using Cons.prems(1,2) x by (rule unlisted_subscribe)
  have c: "c < length (heap ?s')" using len Cons.prems(2) by simp
  have v: "\<forall>y \<in> set xs. y < length (heap ?s')" using len Cons.prems(3) by auto
  from Cons.IH [OF u c v] subscribe_queue_events [OF x, of a b] len
  show ?case by simp
qed

lemma detached_exec:
  assumes "detached c s" "c < length (heap s)"
  shows "detached c (exec x s) \<and> c < length (heap (exec x s))
     \<and> owned_events c (exec x s) = owned_events c s"
proof -
  from assms(1) have u: "unlisted c (heap s)" and q: "\<forall>j \<in> set (queue s). owner j \<noteq> c"
    unfolding detached_def by blast+
  show ?thesis
  proof (cases x)
    case (Construct vs)
    then have "exec x s = s\<lparr>heap := heap s @ [blank]\<rparr>" by (simp only: construct_eq)
    with u q assms(2) show ?thesis
      by (simp add: detached_def unlisted_blank owned_events_def)
  next
    case (Subscribe n a b)
    show ?thesis
    proof (cases "n < length (heap s)")
      case True
      from unlisted_subscribe [OF u assms(2) True, of a b] subscribe_queue_events [OF True, of a b]
        q assms(2) True Subscribe
      show ?thesis by (simp add: detached_def owned_events_def subscribe_eq)
    next
      case False
      with Subscribe assms show ?thesis by simp
    qed
  next
    case (Unsubscribe n)
    have "length (heap (unsubscribe n s)) = length (heap s)"
      by (simp add: unsubscribe_def upd_node_def split: option.splits)
    with unlisted_unsubscribe [OF u, of n] unsubscribe_queue_events [of n s] q assms Unsubscribe
    show ?thesis by (simp add: detached_def owned_events_def)
  next
    case (Emit n v)
    with detached_emit [OF assms(1), of n v] assms show ?thesis
      by (simp add: owned_events_def)
  next
    case (Merge xs)
    show ?thesis
    proof (cases "\<forall>x \<in> set xs. x < length (heap s)")
      case True
      let ?s1 = "s\<lparr>heap := heap s @ [blank]\<rparr>"
      have u1: "unlisted c (heap ?s1)" using u by (simp add: unlisted_blank)
      have c1: "c < length (heap ?s1)" using assms(2) by simp
      have v1: "\<forall>x \<in> set xs. x < length (heap ?s1)" using True by auto
      let ?s2 = "foldl (\<lambda>s' x. snd (subscribe x (Some (EmitBound (length (heap s))))
          (Some (MergeOnError (EmitBound (length (heap s))))) s')) ?s1 xs"
      from fold_subscribe_detached [OF u1 c1 v1, of "Some (EmitBound (length (heap s)))"
          "Some (MergeOnError (EmitBound (length (heap s))))"]
      have f: "unlisted c (heap ?s2)" "length (heap ?s1) \<le> length (heap ?s2)"
        "queue ?s2 = queue s" "events ?s2 = events s"
        by simp_all
      from f(2) assms(2) have "c < length (heap ?s2)" by simp
      moreover have "exec x s = ?s2" using Merge True by (simp add: merge_snd)
      ultimately show ?thesis using f q by (simp add: detached_def owned_events_def)
    next
      case False
      with Merge have "exec x s = s" by auto
      with assms show ?thesis by simp
    qed
  next
    case Tick
    with detached_tick [OF assms(1)] assms(2) show ?thesis by simp
  qed
qed

lemma detached_exec_all:
  assumes "detached c s" "c < length (heap s)"
  shows "owned_events c (exec_all ops s) = owned_events c s"
proof -
  have "detached c (exec_all ops s) \<and> c < length (heap (exec_all ops s))
     \<and> owned_events c (exec_all ops s) = owned_events c s"
    using assms unfolding exec_all_def
  proof (induction ops arbitrary: s)
    case Nil
    then show ?case by simp
  next
    case (Cons x ops)
    from detached_exec [OF Cons.prems, of x] Cons.IH [of "exec x s"]
    show ?case by simp
  qed
  then show ?thesis by blast
qed

lemma distinct_concat_later:
  assumes "distinct (concat xss)" "i < j" "j < length xss" "x \<in> set (xss ! i)"
  shows "x \<notin> set (xss ! j)"
proof
  assume x: "x \<in> set (xss ! j)"
  from assms(2,3) have i: "i < length xss" by simp
  from assms(2,3) have "xss ! j = drop (Suc i) xss ! (j - Suc i)" by simp
  moreover from assms(2,3) have "j - Suc i < length (drop (Suc i) xss)" by simp
  ultimately have "xss ! j \<in> set (drop (Suc i) xss)" using nth_mem by metis
  with x have "x \<in> set (concat (drop (Suc i) xss))" by auto
  moreover from assms(1) concat_split [OF i]
  have "distinct (concat (take i xss) @ xss ! i @ concat (drop (Suc i) xss))" by simp
  ultimately show False using assms(4) by auto
qed

lemma distinct_concat_disjoint:
  assumes "distinct (concat xss)" "i < length xss" "j < length xss" "i \<noteq> j" "x \<in> set (xss ! i)"
  shows "x \<notin> set (xss ! j)"
proof (cases "i < j")
  case True
  with assms show ?thesis by (intro distinct_concat_later [of xss i j x]) simp_all
next
  case False
  with assms(4) have "j < i" by simp
  from distinct_concat_later [OF assms(1) this assms(2)] assms(5) show ?thesis by blast
qed

lemma tree_inv_one_parent:
  assumes "tree_inv h" "p < length h" "c \<in> set (subscribers (h ! p))" "n < length h" "n \<noteq> p"
  shows "c \<notin> set (subscribers (h ! n))"
proof -
  from assms(1) have "distinct (concat (map subscribers h))" unfolding tree_inv_def by blast
  from distinct_concat_disjoint [OF this, of p n c] assms(2-5) show ?thesis by simp
qed

lemma tree_inv_child:
  assumes "tree_inv h" "p < length h" "c \<in> set (subscribers (h ! p))"
  shows "p < c \<and> c < length h"
  using assms unfolding tree_inv_def by blast

section \<open>Emissions into a node without feedback\<close>

lemma jobs_of_char:
  "j \<in> set (jobs_of h val cs) \<Longrightarrow> \<exists>c \<in> set cs. j = first_job h (resolved val) c"
  by (auto simp: jobs_of_def job_of_first split: if_splits)

lemma inv_jobs_char:
  "j \<in> set (inv_jobs h f v) \<Longrightarrow> \<exists>m val. m \<in> targets f \<and> j \<in> set (jobs_of h val (subs_of h m))"
  by (induction f arbitrary: v) auto

lemma first_job_ok:
  assumes "node_targets (h ! c) \<subseteq> D"
  shows "job_ok D (first_job h st c)"
  using assms by (auto simp: job_ok_def first_job_def node_targets_def slot_targets_def)

lemma downstream_node_targets:
  assumes "m = n \<or> m \<in> downstream h n" "m < length h" "c \<in> set (subscribers (h ! m))"
  shows "node_targets (h ! c) \<subseteq> downstream h n"
  using assms by (auto intro: downstream.child downstream.step)

lemma select_targets:
  "select st r = Some f \<Longrightarrow> targets f \<subseteq> slot_targets (fst r) \<union> slot_targets (snd r)"
  by (cases st; cases r) (auto simp: slot_targets_def)

lemma subs_of_mem: "c \<in> set (subs_of h m) \<Longrightarrow> m < length h \<and> c \<in> set (subscribers (h ! m))"
  by (simp add: subs_of_def split: if_splits)

lemma owner_first_job [simp]: "owner (first_job h st c) = c"
  by (simp add: first_job_def)

lemma stage_first_job [simp]: "stage (first_job h st c) = 1"
  by (simp add: first_job_def)

lemma spawn_ok:
  assumes "tree_inv h" and "n < length h" and "c \<in> set (subscribers (h ! n))"
    and "n \<notin> downstream h n" and "job_ok (downstream h n) j" and "j' \<in> set (spawn h j)"
  shows "job_ok (downstream h n) j' \<and> \<not> (owner j' = c \<and> stage j' = 1)"
proof (cases j)
  case (Job c0 k st rs)
  let ?D = "downstream h n"
  show ?thesis
  proof (cases rs)
    case Nil
    with Job assms(6) show ?thesis by simp
  next
    case (Cons r rs')
    from assms(5) Job Cons have k: "1 \<le> k"
      and r: "slot_targets (fst r) \<subseteq> ?D" "slot_targets (snd r) \<subseteq> ?D"
      and rs': "\<forall>r' \<in> set rs'. slot_targets (fst r') \<subseteq> ?D \<and> slot_targets (snd r') \<subseteq> ?D"
      by (simp_all add: job_ok_def)
    have "(\<exists>f. select st r = Some f \<and> j' \<in> set (inv_jobs h f (payload st)))
        \<or> j' = Job c0 (k + 1) (stage_result st r) rs'"
      using assms(6) Job Cons by (cases "select st r") (auto split: if_splits)
    then consider (called) f where "select st r = Some f" "j' \<in> set (inv_jobs h f (payload st))"
      | (next_stage) "j' = Job c0 (k + 1) (stage_result st r) rs'"
      by blast
    then show ?thesis
    proof cases
      case called
      from inv_jobs_char [OF called(2)] obtain m val where
        m: "m \<in> targets f" and j': "j' \<in> set (jobs_of h val (subs_of h m))" by blast
      from select_targets [OF called(1)] m r have mD: "m \<in> ?D" by blast
      with assms(4) have mn: "m \<noteq> n" by blast
      from jobs_of_char [OF j'] obtain c' where
        c': "c' \<in> set (subs_of h m)" and eq: "j' = first_job h (resolved val) c'" by blast
      from subs_of_mem [OF c'] have ml: "m < length h" and cm: "c' \<in> set (subscribers (h ! m))"
        by simp_all
      from mD ml cm have "node_targets (h ! c') \<subseteq> ?D"
        by (intro downstream_node_targets [of m]) simp_all
      then have ok: "job_ok ?D j'" unfolding eq by (rule first_job_ok)
      from tree_inv_one_parent [OF assms(1,2,3) ml mn] cm have "c' \<noteq> c" by blast
      with ok eq show ?thesis by simp
    next
      case next_stage
      with k rs' show ?thesis by (simp add: job_ok_def)
    qed
  qed
qed

lemma arrivals_append [simp]: "arrivals c (xs @ ys) = arrivals c xs @ arrivals c ys"
  by (simp add: arrivals_def)

lemma arrivals_Nil [simp]: "arrivals c [] = []"
  by (simp add: arrivals_def)

lemma arrivals_ev_other: "\<not> (owner j = c \<and> stage j = 1) \<Longrightarrow> arrivals c (ev j) = []"
  by (cases j rule: ev.cases) (auto simp: arrivals_def)

lemma arrivals_evs_other:
  "\<forall>j \<in> set X. \<not> (owner j = c \<and> stage j = 1) \<Longrightarrow> arrivals c (concat (map ev X)) = []"
  by (induction X) (simp_all add: arrivals_ev_other)

lemma run_shape:
  assumes "tree_inv (heap s)" and "n < length (heap s)" and "c \<in> set (subscribers (heap s ! n))"
    and "n \<notin> downstream (heap s) n"
    and "\<forall>j \<in> set (queue s). job_ok (downstream (heap s) n) j"
  shows "\<exists>X. queue (run k s) = drop k (queue s) @ X
           \<and> (\<forall>j \<in> set X. job_ok (downstream (heap s) n) j \<and> \<not> (owner j = c \<and> stage j = 1))
           \<and> arrivals c (events (run k s))
               = arrivals c (events s) @ arrivals c (concat (map ev (take k (queue s))))"
  using assms
proof (induction k arbitrary: s)
  case 0
  have "queue (run 0 s) = drop 0 (queue s) @ []
      \<and> (\<forall>j \<in> set []. job_ok (downstream (heap s) n) j \<and> \<not> (owner j = c \<and> stage j = 1))
      \<and> arrivals c (events (run 0 s)) = arrivals c (events s) @ arrivals c (concat (map ev (take 0 (queue s))))"
    by simp
  then show ?case by blast
next
  case (Suc k)
  let ?D = "downstream (heap s) n"
  show ?case
  proof (cases "queue s")
    case Nil
    then have t: "tick s = s" by (rule tick_Nil)
    from Suc.IH [OF Suc.prems] obtain X where
      X: "queue (run k s) = drop k (queue s) @ X"
         "\<forall>j \<in> set X. job_ok ?D j \<and> \<not> (owner j = c \<and> stage j = 1)"
         "arrivals c (events (run k s)) = arrivals c (events s) @ arrivals c (concat (map ev (take k (queue s))))"
      by blast
    from X Nil t have "queue (run (Suc k) s) = drop (Suc k) (queue s) @ X
      \<and> (\<forall>j \<in> set X. job_ok ?D j \<and> \<not> (owner j = c \<and> stage j = 1))
      \<and> arrivals c (events (run (Suc k) s))
          = arrivals c (events s) @ arrivals c (concat (map ev (take (Suc k) (queue s))))"
      by simp
    then show ?thesis by blast
  next
    case (Cons j q)
    let ?sp = "spawn (heap s) j"
    let ?s1 = "tick s"
    have t: "?s1 = s\<lparr>queue := q @ ?sp, events := events s @ ev j\<rparr>"
      using Cons by (rule tick_Cons)
    from Suc.prems(5) Cons have jok: "job_ok ?D j" and qok: "\<forall>j' \<in> set q. job_ok ?D j'"
      by simp_all
    have sp: "\<forall>j' \<in> set ?sp. job_ok ?D j' \<and> \<not> (owner j' = c \<and> stage j' = 1)"
      using spawn_ok [OF Suc.prems(1-4) jok] by blast
    have ok1: "\<forall>j' \<in> set (queue ?s1). job_ok (downstream (heap ?s1) n) j'"
      using t qok sp by auto
    from Suc.IH [of ?s1] Suc.prems(1-4) ok1 obtain X where
      X: "queue (run k ?s1) = drop k (queue ?s1) @ X"
         "\<forall>j \<in> set X. job_ok ?D j \<and> \<not> (owner j = c \<and> stage j = 1)"
         "arrivals c (events (run k ?s1))
            = arrivals c (events ?s1) @ arrivals c (concat (map ev (take k (queue ?s1))))"
      by auto
    let ?X' = "drop (k - length q) ?sp @ X"
    have a: "queue (run (Suc k) s) = drop (Suc k) (queue s) @ ?X'"
      using X(1) t Cons by simp
    have b: "\<forall>j \<in> set ?X'. job_ok ?D j \<and> \<not> (owner j = c \<and> stage j = 1)"
      using sp X(2) by (auto dest: in_set_dropD)
    have "\<forall>j' \<in> set (take (k - length q) ?sp). \<not> (owner j' = c \<and> stage j' = 1)"
      using sp by (auto dest: in_set_takeD)
    then have "arrivals c (concat (map ev (take (k - length q) ?sp))) = []"
      by (rule arrivals_evs_other)
    then have c: "arrivals c (events (run (Suc k) s))
        = arrivals c (events s) @ arrivals c (concat (map ev (take (Suc k) (queue s))))"
      using X(3) t Cons by simp
    from a b c show ?thesis by blast
  qed
qed

lemma foreseen_tick:
  assumes "tree_inv (heap s)" and "n < length (heap s)" and "c \<in> set (subscribers (heap s ! n))"
    and "n \<notin> downstream (heap s) n"
    and "\<forall>j \<in> set (queue s). job_ok (downstream (heap s) n) j"
  shows "(\<forall>j \<in> set (queue (tick s)). job_ok (downstream (heap s) n) j)
     \<and> foreseen c (tick s) = foreseen c s"
proof -
  let ?D = "downstream (heap s) n"
  from run_shape [OF assms, of 1] obtain X where
    X: "queue (run 1 s) = drop 1 (queue s) @ X"
       "\<forall>j \<in> set X. job_ok ?D j \<and> \<not> (owner j = c \<and> stage j = 1)"
       "arrivals c (events (run 1 s)) = arrivals c (events s) @ arrivals c (concat (map ev (take 1 (queue s))))"
    by blast
  have r: "run 1 s = tick s" by simp
  from X(2) have "arrivals c (concat (map ev X)) = []" by (intro arrivals_evs_other) blast
  moreover have "queue s = take 1 (queue s) @ drop 1 (queue s)" by simp
  then have "arrivals c (concat (map ev (queue s)))
      = arrivals c (concat (map ev (take 1 (queue s)))) @ arrivals c (concat (map ev (drop 1 (queue s))))"
    by (metis arrivals_append concat_append map_append)
  ultimately have "foreseen c (tick s) = foreseen c s"
    using X(1,3) unfolding r foreseen_def by simp
  moreover have "\<forall>j \<in> set (queue (tick s)). job_ok ?D j"
    using X(1,2) assms(5) unfolding r by (auto dest: in_set_dropD)
  ultimately show ?thesis by blast
qed

lemma arrivals_first:
  "distinct cs \<Longrightarrow> c \<in> set cs \<Longrightarrow>
   arrivals c (map (\<lambda>c'. Reaction c' 1 st (g c')) cs) = [Reaction c 1 st (g c)]"
proof (induction cs)
  case Nil
  then show ?case by simp
next
  case (Cons a cs)
  show ?case
  proof (cases "a = c")
    case True
    with Cons.prems have "c \<notin> set cs" by simp
    then have "arrivals c (map (\<lambda>c'. Reaction c' 1 st (g c')) cs) = []"
      by (auto simp: arrivals_def filter_empty_conv)
    with True show ?thesis by (simp add: arrivals_def)
  next
    case False
    with Cons show ?thesis by (simp add: arrivals_def)
  qed
qed

lemma jobs_of_plain: "jobs_of h (Plain v) cs = map (first_job h (Fulfilled v)) cs"
  by (induction cs) (simp_all add: jobs_of_def job_of_first)

lemma ev_first_jobs:
  "concat (map ev (map (first_job h st) cs)) = map (\<lambda>c'. Reaction c' 1 st (first_result h st c')) cs"
  by (induction cs) (simp_all add: ev_first_job)

lemma foreseen_emit:
  assumes "tree_inv (heap s)" and "n < length (heap s)" and "c \<in> set (subscribers (heap s ! n))"
    and "\<forall>j \<in> set (queue s). job_ok (downstream (heap s) n) j"
    and "first_result (heap s) (Fulfilled v) c = Fulfilled v"
  shows "(\<forall>j \<in> set (queue (emit n (Plain v) s)). job_ok (downstream (heap s) n) j)
     \<and> foreseen c (emit n (Plain v) s) = foreseen c s @ [Reaction c 1 (Fulfilled v) (Fulfilled v)]"
proof -
  let ?h = "heap s" and ?cs = "subscribers (heap s ! n)"
  let ?D = "downstream ?h n"
  have q: "queue (emit n (Plain v) s) = queue s @ map (first_job ?h (Fulfilled v)) ?cs"
    using assms(2) by (simp add: emit_queue subs_of_def jobs_of_plain)
  have ok: "job_ok ?D (first_job ?h (Fulfilled v) c')" if "c' \<in> set ?cs" for c'
  proof -
    from assms(2) that have "node_targets (?h ! c') \<subseteq> ?D"
      by (intro downstream_node_targets [of n]) simp_all
    then show ?thesis by (rule first_job_ok)
  qed
  have d: "distinct ?cs" using assms(1,2) by (rule tree_inv_distinct)
  from arrivals_first [OF d assms(3), of "Fulfilled v" "first_result ?h (Fulfilled v)"] assms(5)
  have "arrivals c (map (\<lambda>c'. Reaction c' 1 (Fulfilled v) (first_result ?h (Fulfilled v) c')) ?cs)
      = [Reaction c 1 (Fulfilled v) (Fulfilled v)]"
    by simp
  then have "arrivals c (concat (map ev (map (first_job ?h (Fulfilled v)) ?cs)))
      = [Reaction c 1 (Fulfilled v) (Fulfilled v)]"
    by (simp only: ev_first_jobs)
  then have "foreseen c (emit n (Plain v) s) = foreseen c s @ [Reaction c 1 (Fulfilled v) (Fulfilled v)]"
    unfolding foreseen_def q by simp
  moreover have "\<forall>j \<in> set (queue (emit n (Plain v) s)). job_ok ?D j"
    unfolding q using assms(4) ok by auto
  ultimately show ?thesis by blast
qed

lemma foreseen_ops:
  assumes "tree_inv (heap s)" and "n < length (heap s)" and "c \<in> set (subscribers (heap s ! n))"
    and "n \<notin> downstream (heap s) n"
    and "\<forall>j \<in> set (queue s). job_ok (downstream (heap s) n) j"
    and "\<forall>v. first_result (heap s) (Fulfilled v) c = Fulfilled v"
    and "\<forall>x \<in> set ops. x = Tick \<or> (\<exists>v. x = Emit n (Plain v))"
  shows "heap (exec_all ops s) = heap s
     \<and> (\<forall>j \<in> set (queue (exec_all ops s)). job_ok (downstream (heap s) n) j)
     \<and> foreseen c (exec_all ops s)
         = foreseen c s @ map (\<lambda>v. Reaction c 1 (Fulfilled v) (Fulfilled v)) (plain_emits ops)"
  using assms
proof (induction ops arbitrary: s)
  case Nil
  then show ?case by (simp add: exec_all_def)
next
  case (Cons x ops)
  let ?D = "downstream (heap s) n"
  let ?R = "\<lambda>v. Reaction c 1 (Fulfilled v) (Fulfilled v)"
  have all: "exec_all (x # ops) s = exec_all ops (exec x s)" by (simp add: exec_all_def)
  from Cons.prems(7) have rest: "\<forall>y \<in> set ops. y = Tick \<or> (\<exists>v. y = Emit n (Plain v))"
    and x: "x = Tick \<or> (\<exists>v. x = Emit n (Plain v))" by simp_all
  from x have one: "heap (exec x s) = heap s
      \<and> (\<forall>j \<in> set (queue (exec x s)). job_ok ?D j)
      \<and> foreseen c (exec x s) = foreseen c s @ map ?R (plain_emits [x])"
  proof
    assume "x = Tick"
    with foreseen_tick [OF Cons.prems(1-5)] show ?thesis by simp
  next
    assume "\<exists>v. x = Emit n (Plain v)"
    then obtain v where v: "x = Emit n (Plain v)" ..
    from Cons.prems(6) have "first_result (heap s) (Fulfilled v) c = Fulfilled v" by blast
    from foreseen_emit [OF Cons.prems(1-3,5) this] v Cons.prems(2) show ?thesis by simp
  qed
  then have h: "heap (exec x s) = heap s" by blast
  from Cons.IH [of "exec x s"] Cons.prems(1-4,6) rest one h
  have "heap (exec_all ops (exec x s)) = heap s
     \<and> (\<forall>j \<in> set (queue (exec_all ops (exec x s))). job_ok ?D j)
     \<and> foreseen c (exec_all ops (exec x s)) = foreseen c (exec x s) @ map ?R (plain_emits ops)"
    by simp
  moreover have "plain_emits (x # ops) = plain_emits [x] @ plain_emits ops"
    using x by auto
  ultimately show ?case using one unfolding all by simp
qed

lemma received_gen:
  "concat (map (\<lambda>e. case e of Reaction c' k st r \<Rightarrow> if c' = c \<and> k = 1 then [st] else []) es)
     = map arrived (arrivals c es)"
  by (induction es) (auto simp: arrivals_def arrived_def split: event.splits)

lemma received_arrivals: "received c s = map arrived (arrivals c (events s))"
  unfolding received_def by (rule received_gen)

section \<open>The claims\<close>

text \<open>
  Claim C9. For every node and every value, \<^verbatim>\<open>emit(value)\<close> returns no future (a call of the
  bound emit returns \<open>undefined\<close>) and changes no node: the store after the call is the
  store before it, and nothing is logged during the call. On a node with no subscribers
  the call queues no work at all: the whole state is unchanged.
\<close>

theorem emit_fire_and_forget:
  "heap (emit this val s) = heap s \<and> events (emit this val s) = events s
   \<and> fst (invoke (EmitBound this) val s) = Return (Plain Undefined)
   \<and> (subscribers (heap s ! this) = [] \<longrightarrow> emit this val s = s)"
  by (simp add: emit_eq jobs_of_def subs_of_def)

theorem emit_fire_and_forget_witness:
  "subscribers (heap (snd (new_Observable None init)) ! 0) = []
   \<and> emit 0 (Plain (Num 5)) (snd (new_Observable None init)) = snd (new_Observable None init)"
proof -
  have h: "subscribers (heap (snd (new_Observable None init)) ! 0) = []"
    by (simp add: new_Observable_def init_def)
  with emit_fire_and_forget [of 0 "Plain (Num 5)" "snd (new_Observable None init)"]
  show ?thesis by blast
qed

text \<open>
  Claim C10. \<^verbatim>\<open>Observable.merge(sources)\<close> appends one new bridge subscriber to the
  subscribers of the source of each iteration, in iteration order (the bridge of the
  \<open>i\<close>-th item is the \<open>i\<close>-th node created after the merged node; a source that the
  iterable yields once receives exactly one), with the merged node's bound emit as the
  bridge's \<^verbatim>\<open>_onEmit\<close>. The merged node has no publisher and holds no subscriber, so
  \<^verbatim>\<open>unsubscribe()\<close> on it changes nothing: the bridges stay subscribed.
\<close>

theorem merge_bridges:
  assumes "\<forall>x \<in> set xs. x < length (heap s)"
    and "m = length (heap s)" and "s' = snd (merge xs s)"
  shows "fst (merge xs s) = m
     \<and> length (heap s') = m + 1 + length xs
     \<and> heap s' ! m = blank
     \<and> (\<forall>i < length xs. heap s' ! (m + 1 + i)
            = fresh (m + 1 + i) (xs ! i) (Some (EmitBound m)) (Some (MergeOnError (EmitBound m))))
     \<and> (\<forall>n < m. heap s' ! n
            = (heap s ! n)\<lparr>subscribers := subscribers (heap s ! n) @ map (\<lambda>i. m + 1 + i) (slots n xs)\<rparr>)
     \<and> (distinct xs \<longrightarrow>
          (\<forall>i < length xs. subscribers (heap s' ! (xs ! i)) = subscribers (heap s ! (xs ! i)) @ [m + 1 + i]))
     \<and> queue s' = queue s \<and> events s' = events s
     \<and> unsubscribe m s' = s'"
proof -
  from merge_eq [OF assms(1)] obtain h' where
    h0: "merge xs s = (length (heap s), s\<lparr>heap := h'\<rparr>)
         \<and> bridged (heap s @ [blank]) (EmitBound (length (heap s))) xs h'" ..
  then have mg: "merge xs s = (m, s\<lparr>heap := h'\<rparr>)"
    and br: "bridged (heap s @ [blank]) (EmitBound m) xs h'"
    using assms(2) by simp_all
  from mg assms(3) have s': "s' = s\<lparr>heap := h'\<rparr>" by simp
  have len: "length h' = m + 1 + length xs"
    using br assms(2) by (simp add: bridged_def)
  have fr: "\<forall>i < length xs. h' ! (m + 1 + i)
            = fresh (m + 1 + i) (xs ! i) (Some (EmitBound m)) (Some (MergeOnError (EmitBound m)))"
    using br assms(2) by (simp add: bridged_def)
  have old: "h' ! n = ((heap s @ [blank]) ! n)\<lparr>subscribers := subscribers ((heap s @ [blank]) ! n)
                 @ map (\<lambda>i. m + 1 + i) (slots n xs)\<rparr>" if "n < m + 1" for n
    using br assms(2) that by (simp add: bridged_def)
  have "slots m xs = []"
    using assms(1,2) by (intro slots_none) auto
  with old [of m] assms(2) have root: "h' ! m = blank"
    by (simp add: nth_append blank_def)
  have olds: "\<forall>n < m. h' ! n
            = (heap s ! n)\<lparr>subscribers := subscribers (heap s ! n) @ map (\<lambda>i. m + 1 + i) (slots n xs)\<rparr>"
    using old assms(2) by (simp add: nth_append)
  have dist: "subscribers (h' ! (xs ! i)) = subscribers (heap s ! (xs ! i)) @ [m + 1 + i]"
    if "distinct xs" "i < length xs" for i
  proof -
    from that(2) assms(1,2) have "xs ! i < m" by simp
    with olds have "h' ! (xs ! i) = (heap s ! (xs ! i))\<lparr>subscribers :=
        subscribers (heap s ! (xs ! i)) @ map (\<lambda>i. m + 1 + i) (slots (xs ! i) xs)\<rparr>" by simp
    with slots_distinct [OF that] show ?thesis by simp
  qed
  have "unsubscribe m s' = s'"
    using root s' by (intro unsubscribe_root) (simp add: blank_def)
  with mg s' len fr root olds dist show ?thesis by simp
qed

theorem merge_bridges_witness:
  "0 < length (heap two_roots) \<and> 1 < length (heap two_roots)
   \<and> fst (merge [0, 1] two_roots) = 2
   \<and> length (heap (snd (merge [0, 1] two_roots))) = 5
   \<and> subscribers (heap (snd (merge [0, 1] two_roots)) ! 0) = [3]
   \<and> subscribers (heap (snd (merge [0, 1] two_roots)) ! 1) = [4]
   \<and> onEmit (heap (snd (merge [0, 1] two_roots)) ! 3) = Some (EmitBound 2)
   \<and> publisher (heap (snd (merge [0, 1] two_roots)) ! 4) = Some 1
   \<and> publisher (heap (snd (merge [0, 1] two_roots)) ! 2) = None
   \<and> unsubscribe 2 (snd (merge [0, 1] two_roots)) = snd (merge [0, 1] two_roots)"
proof -
  have h: "heap two_roots = [blank, blank]"
    by (simp add: two_roots_def new_Observable_None init_def)
  then have v: "\<forall>x \<in> set [0, 1]. x < length (heap two_roots)" by simp
  have m: "(2::nat) = length (heap two_roots)" using h by simp
  note c = merge_bridges [OF v m refl]
  from c have fr: "\<forall>i < length [0, 1::nat]. heap (snd (merge [0, 1] two_roots)) ! (2 + 1 + i)
            = fresh (2 + 1 + i) ([0, 1] ! i) (Some (EmitBound 2)) (Some (MergeOnError (EmitBound 2)))"
    by blast
  from c have ds: "\<forall>i < length [0, 1::nat]. subscribers (heap (snd (merge [0, 1] two_roots)) ! ([0, 1] ! i))
            = subscribers (heap two_roots ! ([0, 1] ! i)) @ [2 + 1 + i]"
    by simp
  from fr [rule_format, of 0] fr [rule_format, of 1] ds [rule_format, of 0] ds [rule_format, of 1] c h
  show ?thesis by (simp add: fresh_def blank_def)
qed

text \<open>
  Claim C8. After every sequence of the public operations (construction, subscribe,
  unsubscribe, emit, merge, and turns of the event queue), started with no object, a node
  stands at most once in all the subscribers sequences together, and the publisher of a
  node is set if and only if the node was produced by \<^verbatim>\<open>subscribe\<close>.
\<close>

theorem structural_invariants:
  "distinct (concat (map subscribers (heap (exec_all ops init))))
   \<and> (\<forall>n < length (heap (exec_all ops init)).
         (publisher (heap (exec_all ops init) ! n) \<noteq> None) = by_subscribe (heap (exec_all ops init) ! n))"
proof -
  have "tree_inv (heap init)" by (simp add: tree_inv_def init_def)
  then have "tree_inv (heap (exec_all ops init))" by (rule tree_inv_exec_all)
  then show ?thesis unfolding tree_inv_def by blast
qed

lemma sample_ops_heap:
  "map subscribers (heap (exec_all sample_ops init)) = [[2, 5], [], [3, 6], [], [], [], []]
   \<and> map publisher (heap (exec_all sample_ops init)) = [None, Some 0, Some 0, Some 2, None, Some 0, Some 2]"
  by (simp add: sample_ops_def exec_all_def init_def new_Observable_def subscribe_eq
        unsubscribe_def upd_node_def fresh_def push_def blank_def splice_js_def Let_def
        merge_def genIterator_def merge_exec_eq emit_eq subs_of_def jobs_of_def job_of_def
        tick_def run_job_eq stage_result_def)

theorem structural_invariants_witness:
  "distinct (concat (map subscribers (heap (exec_all sample_ops init))))
   \<and> map subscribers (heap (exec_all sample_ops init)) = [[2, 5], [], [3, 6], [], [], [], []]
   \<and> map publisher (heap (exec_all sample_ops init)) = [None, Some 0, Some 0, Some 2, None, Some 0, Some 2]
   \<and> \<not> by_subscribe (heap (exec_all sample_ops init) ! 0)
   \<and> by_subscribe (heap (exec_all sample_ops init) ! 1)
   \<and> \<not> by_subscribe (heap (exec_all sample_ops init) ! 4)
   \<and> by_subscribe (heap (exec_all sample_ops init) ! 6)"
proof -
  let ?h = "heap (exec_all sample_ops init)"
  note t = structural_invariants [of sample_ops]
  from sample_ops_heap have "length (map subscribers ?h) = 7" by simp
  then have len: "length ?h = 7" by simp
  from sample_ops_heap have "map publisher ?h ! 0 = None" "map publisher ?h ! 1 = Some 0"
    "map publisher ?h ! 4 = None" "map publisher ?h ! 6 = Some 2" by simp_all
  with len have p: "publisher (?h ! 0) = None" "publisher (?h ! 1) = Some 0"
    "publisher (?h ! 4) = None" "publisher (?h ! 6) = Some 2" by simp_all
  from t len have "(publisher (?h ! 0) \<noteq> None) = by_subscribe (?h ! 0)"
    "(publisher (?h ! 1) \<noteq> None) = by_subscribe (?h ! 1)"
    "(publisher (?h ! 4) \<noteq> None) = by_subscribe (?h ! 4)"
    "(publisher (?h ! 6) \<noteq> None) = by_subscribe (?h ! 6)" by simp_all
  with p have "\<not> by_subscribe (?h ! 0)" "by_subscribe (?h ! 1)" "\<not> by_subscribe (?h ! 4)"
    "by_subscribe (?h ! 6)" by simp_all
  with t sample_ops_heap show ?thesis by blast
qed

text \<open>
  Claim C4. For every node \<open>parent\<close> and every subscriber \<open>c\<close> of it that has no
  \<^verbatim>\<open>onError\<close> handler, emitting an already-failed value into \<open>parent\<close> does not swallow the
  failure: the first stage of \<open>c\<close> passes the failure on unchanged, the second stage hands
  it to the \<^verbatim>\<open>_nextErr\<close> of \<open>c\<close>, which emits it into \<open>c\<close> as a new failed value, and the
  same failure arrives at every subscriber of \<open>c\<close>.
\<close>

theorem failure_passes_absent_handler:
  assumes "parent < length (heap s)" and "c \<in> set (subscribers (heap s ! parent))"
    and "c < length (heap s)"
    and "onError (heap s ! c) = None" and "nextErr (heap s ! c) = Some (NextErr c)"
    and "s' = emit parent (promise_reject e) s"
  shows "delivered (Reaction c 1 (Rejected e) (Rejected e)) s'
     \<and> delivered (Reaction c 2 (Rejected e) (Fulfilled Undefined)) s'
     \<and> (\<forall>d \<in> set (subscribers (heap s ! c)).
           delivered (Reaction d 1 (Rejected e) (first_result (heap s) (Rejected e) d)) s')"
proof -
  let ?h = "heap s"
  let ?j1 = "first_job ?h (Rejected e) c"
  let ?j2 = "Job c 2 (Rejected e) [(Some EmitMethod, Some (NextErr c))]"
  have hs: "heap s' = ?h" using assms(6) by simp
  have r1: "first_result ?h (Rejected e) c = Rejected e"
    using assms(4) by (simp add: first_result_def stage_result_def)
  have a1: "arises (heap s') (queue s') ?j1"
    using emit_arises [OF assms(1,2), of "promise_reject e"] assms(6) by simp
  have "?j2 \<in> set (spawn ?h ?j1)"
    using assms(4,5) by (simp add: first_job_def stage_result_def)
  with a1 have a2: "arises (heap s') (queue s') ?j2"
    unfolding hs by (rule arises.spawned)
  have d1: "delivered (Reaction c 1 (Rejected e) (Rejected e)) s'"
    using a1 by (rule arises_delivered) (simp add: ev_first_job r1)
  have d2: "delivered (Reaction c 2 (Rejected e) (Fulfilled Undefined)) s'"
    using a2 by (rule arises_delivered) (simp add: stage_result_def)
  have d3: "delivered (Reaction d 1 (Rejected e) (first_result ?h (Rejected e) d)) s'"
    if "d \<in> set (subscribers (?h ! c))" for d
  proof -
    have "first_job ?h (Rejected e) d \<in> set (spawn ?h ?j2)"
      using that assms(3) jobs_of_mem [of d "subscribers (?h ! c)" "promise_reject e" ?h]
      by (simp add: subs_of_def)
    with a2 have "arises (heap s') (queue s') (first_job ?h (Rejected e) d)"
      unfolding hs by (rule arises.spawned)
    then show ?thesis by (rule arises_delivered) (simp add: ev_first_job)
  qed
  from d1 d2 d3 show ?thesis by blast
qed

lemma relay_eq:
  "relay = \<lparr>heap = [blank\<lparr>subscribers := [1]\<rparr>, (fresh 1 0 None None)\<lparr>subscribers := [2]\<rparr>,
                    fresh 2 1 None (Some message_of)],
            queue = [], events = []\<rparr>"
  by (simp add: relay_def exec_all_def init_def new_Observable_def subscribe_eq
        fresh_def push_def blank_def Let_def)

theorem failure_passes_absent_handler_witness:
  "0 < length (heap relay) \<and> 1 \<in> set (subscribers (heap relay ! 0)) \<and> 1 < length (heap relay)
   \<and> onError (heap relay ! 1) = None \<and> nextErr (heap relay ! 1) = Some (NextErr 1)
   \<and> 2 \<in> set (subscribers (heap relay ! 1))
   \<and> delivered (Reaction 1 1 (Rejected (Plain (Error ''x''))) (Rejected (Plain (Error ''x''))))
        (emit 0 (promise_reject (Plain (Error ''x''))) relay)
   \<and> delivered (Reaction 2 1 (Rejected (Plain (Error ''x''))) (Fulfilled (Str ''x'')))
        (emit 0 (promise_reject (Plain (Error ''x''))) relay)"
proof -
  have h1: "0 < length (heap relay)" and h2: "1 \<in> set (subscribers (heap relay ! 0))"
    and h3: "1 < length (heap relay)" and h4: "onError (heap relay ! 1) = None"
    and h5: "nextErr (heap relay ! 1) = Some (NextErr 1)"
    and h6: "2 \<in> set (subscribers (heap relay ! 1))"
    by (simp_all add: relay_eq fresh_def blank_def)
  have r: "first_result (heap relay) (Rejected (Plain (Error ''x''))) 2 = Fulfilled (Str ''x'')"
    by (simp add: relay_eq first_result_def stage_result_def fresh_def message_of_def)
  from failure_passes_absent_handler [OF h1 h2 h3 h4 h5 refl, of "Plain (Error ''x'')"] h6 r
  have "delivered (Reaction 1 1 (Rejected (Plain (Error ''x''))) (Rejected (Plain (Error ''x''))))
          (emit 0 (promise_reject (Plain (Error ''x''))) relay)
      \<and> delivered (Reaction 2 1 (Rejected (Plain (Error ''x''))) (Fulfilled (Str ''x'')))
          (emit 0 (promise_reject (Plain (Error ''x''))) relay)"
    by auto
  with h1 h2 h3 h4 h5 h6 show ?thesis by blast
qed

text \<open>
  Claim C3. If the \<^verbatim>\<open>onEmit\<close> transform of a subscriber \<open>c\<close> throws, or returns a rejected
  future, on a value, the failure settles the first stage of \<open>c\<close>, the second stage hands
  it to the \<^verbatim>\<open>_nextErr\<close> of \<open>c\<close>, which emits it into \<open>c\<close>, and every subscriber of \<open>c\<close>
  that has an \<^verbatim>\<open>onError\<close> handler has that handler run on the failure. For
  \<^verbatim>\<open>root.subscribe(v => { throw new Error("x") })\<close> subscribed to with the error handler
  \<^verbatim>\<open>err => err.message\<close>, the handler yields \<open>"x"\<close>.
\<close>

theorem transform_failure_reaches_subscribers:
  assumes "parent < length (heap s)" and "c \<in> set (subscribers (heap s ! parent))"
    and "c < length (heap s)"
    and "resolved val = Fulfilled v"
    and "onEmit (heap s ! c) = Some f" and "settle (inv_out f (Plain v)) = Rejected x"
    and "nextErr (heap s ! c) = Some (NextErr c)"
    and "s' = emit parent val s"
  shows "delivered (Reaction c 1 (Fulfilled v) (Rejected x)) s'
     \<and> delivered (Reaction c 2 (Rejected x) (Fulfilled Undefined)) s'
     \<and> (\<forall>d \<in> set (subscribers (heap s ! c)). \<forall>g. onError (heap s ! d) = Some g \<longrightarrow>
           delivered (Reaction d 1 (Rejected x) (settle (inv_out g x))) s')"
proof -
  let ?h = "heap s"
  let ?j1 = "first_job ?h (Fulfilled v) c"
  let ?j2 = "Job c 2 (Rejected x) [(Some EmitMethod, Some (NextErr c))]"
  have hs: "heap s' = ?h" using assms(8) by simp
  have r1: "first_result ?h (Fulfilled v) c = Rejected x"
    using assms(5,6) by (simp add: first_result_def stage_result_def)
  have "resolved val \<noteq> Pending" using assms(4) by simp
  from emit_arises [OF assms(1,2) this]
  have a1: "arises (heap s') (queue s') ?j1"
    using assms(4,8) by simp
  have "?j2 \<in> set (spawn ?h ?j1)"
    using assms(5,6,7) by (simp add: first_job_def stage_result_def)
  with a1 have a2: "arises (heap s') (queue s') ?j2"
    unfolding hs by (rule arises.spawned)
  have d1: "delivered (Reaction c 1 (Fulfilled v) (Rejected x)) s'"
    using a1 by (rule arises_delivered) (simp add: ev_first_job r1)
  have d2: "delivered (Reaction c 2 (Rejected x) (Fulfilled Undefined)) s'"
    using a2 by (rule arises_delivered) (simp add: stage_result_def)
  have d3: "delivered (Reaction d 1 (Rejected x) (settle (inv_out g x))) s'"
    if "d \<in> set (subscribers (?h ! c))" "onError (?h ! d) = Some g" for d g
  proof -
    have "first_job ?h (Rejected x) d \<in> set (spawn ?h ?j2)"
      using that(1) assms(3) jobs_of_mem [of d "subscribers (?h ! c)" "promise_reject x" ?h]
      by (simp add: subs_of_def)
    with a2 have a3: "arises (heap s') (queue s') (first_job ?h (Rejected x) d)"
      unfolding hs by (rule arises.spawned)
    have "first_result ?h (Rejected x) d = settle (inv_out g x)"
      using that(2) by (simp add: first_result_def stage_result_def)
    then have "Reaction d 1 (Rejected x) (settle (inv_out g x)) \<in> set (ev (first_job ?h (Rejected x) d))"
      by (simp add: ev_first_job)
    with a3 show ?thesis by (rule arises_delivered)
  qed
  from d1 d2 d3 show ?thesis by blast
qed

lemma thrown_eq:
  "thrown = \<lparr>heap = [blank\<lparr>subscribers := [1]\<rparr>, (fresh 1 0 (Some thrower) None)\<lparr>subscribers := [2]\<rparr>,
                    fresh 2 1 None (Some message_of)],
            queue = [], events = []\<rparr>"
  by (simp add: thrown_def exec_all_def init_def new_Observable_def subscribe_eq
        fresh_def push_def blank_def Let_def)

lemma thrown_run:
  "events (run 4 (emit 0 (Plain (Num 7)) thrown))
     = [Reaction 1 1 (Fulfilled (Num 7)) (Rejected (Plain (Error ''x''))),
        Reaction 1 2 (Rejected (Plain (Error ''x''))) (Fulfilled Undefined),
        Reaction 2 1 (Rejected (Plain (Error ''x''))) (Fulfilled (Str ''x'')),
        Reaction 2 2 (Fulfilled (Str ''x'')) (Rejected (Plain TypeError))]
   \<and> queue (run 4 (emit 0 (Plain (Num 7)) thrown)) = []"
  by (simp add: thrown_eq emit_eq subs_of_def jobs_of_def job_of_def numeral_nat tick_def run_job_eq
        stage_result_def fresh_def blank_def thrower_def message_of_def promise_reject_def)

theorem transform_failure_reaches_subscribers_witness:
  "0 < length (heap thrown) \<and> 1 \<in> set (subscribers (heap thrown ! 0)) \<and> 1 < length (heap thrown)
   \<and> resolved (Plain (Num 7)) = Fulfilled (Num 7)
   \<and> onEmit (heap thrown ! 1) = Some thrower \<and> settle (inv_out thrower (Plain (Num 7))) = Rejected (Plain (Error ''x''))
   \<and> nextErr (heap thrown ! 1) = Some (NextErr 1)
   \<and> 2 \<in> set (subscribers (heap thrown ! 1)) \<and> onError (heap thrown ! 2) = Some message_of
   \<and> delivered (Reaction 1 1 (Fulfilled (Num 7)) (Rejected (Plain (Error ''x'')))) (emit 0 (Plain (Num 7)) thrown)
   \<and> delivered (Reaction 2 1 (Rejected (Plain (Error ''x''))) (Fulfilled (Str ''x''))) (emit 0 (Plain (Num 7)) thrown)"
proof -
  have h1: "0 < length (heap thrown)" and h2: "1 \<in> set (subscribers (heap thrown ! 0))"
    and h3: "1 < length (heap thrown)" and h4: "resolved (Plain (Num 7)) = Fulfilled (Num 7)"
    and h5: "onEmit (heap thrown ! 1) = Some thrower"
    and h7: "nextErr (heap thrown ! 1) = Some (NextErr 1)"
    and h8: "2 \<in> set (subscribers (heap thrown ! 1))"
    and h9: "onError (heap thrown ! 2) = Some message_of"
    by (simp_all add: thrown_eq fresh_def blank_def)
  have h6: "settle (inv_out thrower (Plain (Num 7))) = Rejected (Plain (Error ''x''))"
    by (simp add: thrower_def)
  have r: "settle (inv_out message_of (Plain (Error ''x''))) = Fulfilled (Str ''x'')"
    by (simp add: message_of_def)
  from transform_failure_reaches_subscribers [OF h1 h2 h3 h4 h5 h6 h7 refl] h8 h9 r
  have "delivered (Reaction 1 1 (Fulfilled (Num 7)) (Rejected (Plain (Error ''x'')))) (emit 0 (Plain (Num 7)) thrown)
      \<and> delivered (Reaction 2 1 (Rejected (Plain (Error ''x''))) (Fulfilled (Str ''x''))) (emit 0 (Plain (Num 7)) thrown)"
    by fastforce
  with h1 h2 h3 h4 h5 h6 h7 h8 h9 show ?thesis by blast
qed

lemma merged_pair_eq:
  "merged_pair =
     \<lparr>heap = [blank\<lparr>subscribers := [3]\<rparr>, blank\<lparr>subscribers := [4]\<rparr>, blank\<lparr>subscribers := [5]\<rparr>,
              fresh 3 0 (Some (EmitBound 2)) (Some (MergeOnError (EmitBound 2))),
              fresh 4 1 (Some (EmitBound 2)) (Some (MergeOnError (EmitBound 2))),
              fresh 5 2 (Some ident) None],
      queue = [], events = []\<rparr>"
  by (simp add: merged_pair_def exec_all_def init_def new_Observable_def merge_def genIterator_def
        merge_exec_eq subscribe_eq fresh_def push_def blank_def Let_def)

lemma merged_pair_run:
  "received 5 (run 8 (emit 1 (Plain w) (emit 0 (Plain v) merged_pair))) = [Fulfilled v, Fulfilled w]
   \<and> queue (run 8 (emit 1 (Plain w) (emit 0 (Plain v) merged_pair))) = []"
  by (simp add: merged_pair_eq emit_eq subs_of_def jobs_of_def job_of_def numeral_nat tick_def
        run_job_eq stage_result_def fresh_def blank_def ident_def promise_reject_def received_def)

text \<open>
  Claim C7. \<^verbatim>\<open>Observable.merge(iterable)\<close> drains the iterable once, during the
  construction: when the executor returns the cursor is exhausted and nothing is left
  queued, and no run of the event queue changes the store afterwards, so a source added
  to the iterable later is never subscribed to. A subscriber of the merged node receives
  every value and every failure emitted into any of the sources. For \<^verbatim>\<open>merge([a, b])\<close> of
  two roots, a value emitted into \<open>a\<close> and then one emitted into \<open>b\<close> arrive at a
  subscriber of the merged node, in that order, and nothing else does.
\<close>

theorem merge_forwards:
  assumes "\<forall>x \<in> set xs. x < length (heap s)"
    and "merge xs s = (m, s1)" and "subscribe m a b s1 = (c, s2)"
    and "src \<in> set xs" and "resolved val = st" and "st \<noteq> Pending"
  shows "fst (merge_exec (genIterator xs) (EmitBound m) s0) = []
     \<and> queue s1 = queue s
     \<and> delivered (Reaction c 1 st (first_result (heap s2) st c)) (emit src val s2)
     \<and> (\<forall>k. heap (run k (emit src val s2)) = heap s2)
     \<and> received 5 (run 8 (emit 1 (Plain w) (emit 0 (Plain v) merged_pair))) = [Fulfilled v, Fulfilled w]
     \<and> queue (run 8 (emit 1 (Plain w) (emit 0 (Plain v) merged_pair))) = []"
proof -
  from merge_eq [OF assms(1)] obtain h' where
    h0: "merge xs s = (length (heap s), s\<lparr>heap := h'\<rparr>)
         \<and> bridged (heap s @ [blank]) (EmitBound (length (heap s))) xs h'" ..
  with assms(2) have m: "m = length (heap s)" and s1: "s1 = s\<lparr>heap := h'\<rparr>"
    and br: "bridged (heap s @ [blank]) (EmitBound m) xs h'"
    by simp_all
  from br have len: "length h' = m + 1 + length xs"
    using m by (simp add: bridged_def)
  from assms(4) obtain i where i: "i < length xs" "xs ! i = src"
    by (auto simp: in_set_conv_nth)
  with assms(1) m have src: "src < m" by auto
  let ?b = "m + 1 + i"
  from br i(1) m have bi: "h' ! ?b = fresh ?b (xs ! i) (Some (EmitBound m)) (Some (MergeOnError (EmitBound m)))"
    by (simp add: bridged_def)
  from br src m have "h' ! src = ((heap s @ [blank]) ! src)\<lparr>subscribers :=
      subscribers ((heap s @ [blank]) ! src) @ map (\<lambda>i. m + 1 + i) (slots src xs)\<rparr>"
    by (simp add: bridged_def)
  moreover from slots_mem [OF i(1)] i(2) have "i \<in> set (slots src xs)" by simp
  ultimately have bsub: "?b \<in> set (subscribers (h' ! src))" by simp
  have mlen: "m < length (heap s1)" using s1 len by simp
  from subscribe_eq [OF mlen, of a b] assms(3)
  have "(c, s2) = (length (heap s1),
          s1\<lparr>heap := (heap s1)[m := push (length (heap s1)) (heap s1 ! m)]
                          @ [fresh (length (heap s1)) m a b]\<rparr>)"
    by simp
  then have c: "c = length h'"
    and s2: "heap s2 = h'[m := push (length h') (h' ! m)] @ [fresh (length h') m a b]"
    using s1 by auto
  have f1: "src < length (heap s2)" using s2 src len by simp
  have f2: "?b \<in> set (subscribers (heap s2 ! src))"
    using s2 src len bsub by (simp add: nth_append)
  have "heap s2 ! ?b = h' ! ?b"
    using s2 len i(1) by (simp add: nth_append)
  with bi have f3: "onEmit (heap s2 ! ?b) = Some (EmitBound m)"
    and f4: "onError (heap s2 ! ?b) = Some (MergeOnError (EmitBound m))"
    by (simp_all add: fresh_def)
  have f5: "m < length (heap s2)" using s2 len by simp
  have f6: "c \<in> set (subscribers (heap s2 ! m))"
    using s2 len c by (simp add: nth_append push_def)
  have "delivered (Reaction c 1 st (first_result (heap s2) st c)) (emit src val s2)"
    using f1 f2 f3 f4 f5 f6 assms(5,6) by (rule bridge_delivers)
  moreover have "queue s1 = queue s" using s1 by simp
  moreover note merged_pair_run [of w v]
  ultimately show ?thesis
    by (simp add: merge_exec_drained)
qed

theorem merge_forwards_witness:
  "0 < length (heap two_roots) \<and> 1 < length (heap two_roots)
   \<and> merge [0, 1] two_roots = (2, snd (merge [0, 1] two_roots))
   \<and> subscribe 2 (Some ident) None (snd (merge [0, 1] two_roots)) = (5, merged_pair)
   \<and> resolved (Plain (Num 1)) = Fulfilled (Num 1)
   \<and> delivered (Reaction 5 1 (Fulfilled (Num 1)) (Fulfilled (Num 1))) (emit 0 (Plain (Num 1)) merged_pair)
   \<and> delivered (Reaction 5 1 (Rejected (Plain (Error ''x''))) (Rejected (Plain (Error ''x''))))
        (emit 1 (promise_reject (Plain (Error ''x''))) merged_pair)
   \<and> received 5 (run 8 (emit 1 (Plain (Num 2)) (emit 0 (Plain (Num 1)) merged_pair)))
        = [Fulfilled (Num 1), Fulfilled (Num 2)]"
proof -
  have h: "heap two_roots = [blank, blank]" "queue two_roots = []" "events two_roots = []"
    by (simp_all add: two_roots_def new_Observable_None init_def)
  have v: "\<forall>x \<in> set [0, 1]. x < length (heap two_roots)" using h by simp
  have mg: "merge [0, 1] two_roots = (2, snd (merge [0, 1] two_roots))"
    using h by (simp add: merge_def new_Observable_def Let_def)
  have sb: "subscribe 2 (Some ident) None (snd (merge [0, 1] two_roots)) = (5, merged_pair)"
    by (simp add: merged_pair_eq two_roots_def init_def new_Observable_def merge_def genIterator_def
        merge_exec_eq subscribe_eq fresh_def push_def blank_def Let_def)
  have r1: "first_result (heap merged_pair) (Fulfilled (Num 1)) 5 = Fulfilled (Num 1)"
    and r2: "first_result (heap merged_pair) (Rejected (Plain (Error ''x''))) 5 = Rejected (Plain (Error ''x''))"
    by (simp_all add: merged_pair_eq first_result_def stage_result_def fresh_def ident_def)
  have d1: "delivered (Reaction 5 1 (Fulfilled (Num 1)) (Fulfilled (Num 1))) (emit 0 (Plain (Num 1)) merged_pair)"
    using merge_forwards [OF v mg sb, of 0 "Plain (Num 1)" "Fulfilled (Num 1)"] r1 by simp
  have d2: "delivered (Reaction 5 1 (Rejected (Plain (Error ''x''))) (Rejected (Plain (Error ''x''))))
        (emit 1 (promise_reject (Plain (Error ''x''))) merged_pair)"
    using merge_forwards [OF v mg sb, of 1 "promise_reject (Plain (Error ''x''))" "Rejected (Plain (Error ''x''))"] r2
    by simp
  have d3: "received 5 (run 8 (emit 1 (Plain (Num 2)) (emit 0 (Plain (Num 1)) merged_pair)))
        = [Fulfilled (Num 1), Fulfilled (Num 2)]"
    using merge_forwards [OF v mg sb, of 0 "Plain (Num 1)" "Fulfilled (Num 1)" _ "Num 2" "Num 1"] by simp
  from h mg sb d1 d2 d3 show ?thesis by simp
qed

text \<open>
  Claim C5. For a child \<open>c\<close> created by \<^verbatim>\<open>p.subscribe\<close> and still in the subscribers of \<open>p\<close>,
  \<^verbatim>\<open>c.unsubscribe()\<close> removes the first occurrence of \<open>c\<close> from the subscribers of \<open>p\<close> and
  changes nothing else. After it, whatever public operations follow (every later
  \<^verbatim>\<open>p.emit\<close> among them), no reaction of \<open>c\<close> is logged any more: none of its handlers is
  invoked (a job of \<open>c\<close> that was in flight before the call is not cancelled, so the
  theorem is about a state with none). The node \<open>c\<close> itself is unchanged, and a value
  emitted directly into \<open>c\<close> is still delivered to each subscriber of \<open>c\<close>.
\<close>

theorem unsubscribe_removes_child:
  assumes "tree_inv (heap s)" and "p < length (heap s)"
    and "publisher (heap s ! c) = Some p" and "c \<in> set (subscribers (heap s ! p))"
    and "\<forall>j \<in> set (queue s). owner j \<noteq> c"
    and "s' = unsubscribe c s"
  shows "heap s' = (heap s)[p := (heap s ! p)\<lparr>subscribers := remove1 c (subscribers (heap s ! p))\<rparr>]
     \<and> queue s' = queue s \<and> events s' = events s
     \<and> (\<forall>ops. owned_events c (exec_all ops s') = owned_events c s')
     \<and> heap s' ! c = heap s ! c
     \<and> (\<forall>d \<in> set (subscribers (heap s ! c)). \<forall>val. resolved val \<noteq> Pending \<longrightarrow>
           delivered (Reaction d 1 (resolved val) (first_result (heap s') (resolved val) d)) (emit c val s'))"
proof -
  let ?h = "heap s"
  let ?h' = "?h[p := (?h ! p)\<lparr>subscribers := remove1 c (subscribers (?h ! p))\<rparr>]"
  from tree_inv_child [OF assms(1,2,4)] have pc: "p < c" and c: "c < length ?h" by simp_all
  have s': "s' = s\<lparr>heap := ?h'\<rparr>"
    using assms(3,4,6) by (simp add: unsubscribe_present)
  have dp: "distinct (subscribers (?h ! p))" using assms(1,2) by (rule tree_inv_distinct)
  have "c \<notin> set (subscribers (?h' ! n))" if "n < length ?h'" for n
  proof (cases "n = p")
    case True
    with assms(2) dp show ?thesis by simp
  next
    case False
    from that have "n < length ?h" by simp
    from tree_inv_one_parent [OF assms(1,2,4) this False] False show ?thesis by simp
  qed
  then have "unlisted c (heap s')" unfolding s' unlisted_def by simp
  with assms(5) s' have det: "detached c s'" by (simp add: detached_def)
  have c': "c < length (heap s')" using s' c by simp
  have same: "heap s' ! c = ?h ! c" using s' pc by simp
  have live: "delivered (Reaction d 1 (resolved val) (first_result (heap s') (resolved val) d)) (emit c val s')"
    if "d \<in> set (subscribers (?h ! c))" "resolved val \<noteq> Pending" for d val
  proof -
    from that(1) same have "d \<in> set (subscribers (heap s' ! c))" by simp
    with c' show ?thesis using that(2) by (rule emit_delivers)
  qed
  from s' detached_exec_all [OF det c'] same live show ?thesis by simp
qed

lemma family_eq:
  "family = \<lparr>heap = [blank\<lparr>subscribers := [1, 2]\<rparr>, (fresh 1 0 (Some ident) None)\<lparr>subscribers := [3]\<rparr>,
                     fresh 2 0 (Some ident) None, fresh 3 1 (Some ident) None],
             queue = [], events = []\<rparr>"
  by (simp add: family_def exec_all_def init_def new_Observable_def subscribe_eq
        fresh_def push_def blank_def Let_def)

theorem unsubscribe_removes_child_witness:
  "tree_inv (heap family) \<and> 0 < length (heap family)
   \<and> publisher (heap family ! 1) = Some 0 \<and> 1 \<in> set (subscribers (heap family ! 0))
   \<and> queue family = []
   \<and> subscribers (heap (unsubscribe 1 family) ! 0) = [2]
   \<and> owned_events 1 (exec_all [Emit 0 (Plain (Num 4)), Tick, Tick, Tick] (unsubscribe 1 family)) = []
   \<and> 3 \<in> set (subscribers (heap family ! 1))
   \<and> delivered (Reaction 3 1 (Fulfilled (Num 9)) (Fulfilled (Num 9))) (emit 1 (Plain (Num 9)) (unsubscribe 1 family))"
proof -
  have "tree_inv (heap init)" by (simp add: tree_inv_def init_def)
  then have h1: "tree_inv (heap family)" unfolding family_def by (rule tree_inv_exec_all)
  have h2: "0 < length (heap family)" and h3: "publisher (heap family ! 1) = Some 0"
    and h4: "1 \<in> set (subscribers (heap family ! 0))" and h5: "queue family = []"
    and h6: "3 \<in> set (subscribers (heap family ! 1))"
    by (simp_all add: family_eq fresh_def blank_def)
  from h5 have h5': "\<forall>j \<in> set (queue family). owner j \<noteq> 1" by simp
  note t = unsubscribe_removes_child [OF h1 h2 h3 h4 h5' refl]
  from t have a: "heap (unsubscribe 1 family)
      = (heap family)[0 := (heap family ! 0)\<lparr>subscribers := remove1 1 (subscribers (heap family ! 0))\<rparr>]"
    by blast
  then have c1: "subscribers (heap (unsubscribe 1 family) ! 0) = [2]"
    by (simp add: family_eq)
  from t have "owned_events 1 (exec_all [Emit 0 (Plain (Num 4)), Tick, Tick, Tick] (unsubscribe 1 family))
      = owned_events 1 (unsubscribe 1 family)" by blast
  moreover from t h5 have "events (unsubscribe 1 family) = []" by (simp add: family_eq)
  ultimately have c2: "owned_events 1 (exec_all [Emit 0 (Plain (Num 4)), Tick, Tick, Tick] (unsubscribe 1 family)) = []"
    by (simp add: owned_events_def)
  have "first_result (heap (unsubscribe 1 family)) (Fulfilled (Num 9)) 3 = Fulfilled (Num 9)"
    unfolding a by (simp add: family_eq first_result_def stage_result_def fresh_def ident_def)
  moreover from t h6 have "resolved (Plain (Num 9)) \<noteq> Pending \<longrightarrow>
      delivered (Reaction 3 1 (resolved (Plain (Num 9)))
        (first_result (heap (unsubscribe 1 family)) (resolved (Plain (Num 9))) 3))
        (emit 1 (Plain (Num 9)) (unsubscribe 1 family))" by blast
  ultimately have c3: "delivered (Reaction 3 1 (Fulfilled (Num 9)) (Fulfilled (Num 9)))
      (emit 1 (Plain (Num 9)) (unsubscribe 1 family))" by simp
  from h1 h2 h3 h4 h5 h6 c1 c2 c3 show ?thesis by blast
qed

text \<open>
  Claim C6. Let plain values be emitted into a node \<open>n\<close>, in any interleaving with turns
  of the event queue, from a state with an empty queue in which no emission into \<open>n\<close>
  can cause another emission into \<open>n\<close>. Then every subscriber \<open>c\<close> of \<open>n\<close> whose \<^verbatim>\<open>onEmit\<close>
  is absent or returns its argument, and whose \<^verbatim>\<open>onError\<close> is absent, receives exactly those
  values, unchanged and in emission order: every long enough run of the queue has
  logged for \<open>c\<close> one arrival per emitted value, in that order, each passed on
  unchanged, and no other. This holds of each such subscriber on its own; with two of
  them, after \<^verbatim>\<open>root.emit(1); root.emit(2)\<close> both have received \<open>[1, 2]\<close>.
\<close>

theorem identity_subscriber_receives_in_order:
  assumes "tree_inv (heap s)" and "n < length (heap s)" and "c \<in> set (subscribers (heap s ! n))"
    and "n \<notin> downstream (heap s) n" and "queue s = []"
    and "\<forall>f. onEmit (heap s ! c) = Some f \<longrightarrow> (\<forall>v. inv_out f (Plain v) = Return (Plain v))"
    and "onError (heap s ! c) = None"
    and "\<forall>x \<in> set ops. x = Tick \<or> (\<exists>v. x = Emit n (Plain v))"
    and "s' = exec_all ops s"
  shows "\<exists>k0. \<forall>k \<ge> k0.
           arrivals c (events (run k s'))
             = arrivals c (events s) @ map (\<lambda>v. Reaction c 1 (Fulfilled v) (Fulfilled v)) (plain_emits ops)
           \<and> received c (run k s') = received c s @ map Fulfilled (plain_emits ops)"
proof -
  let ?D = "downstream (heap s) n"
  let ?R = "\<lambda>v. Reaction c 1 (Fulfilled v) (Fulfilled v)"
  have idn: "\<forall>v. first_result (heap s) (Fulfilled v) c = Fulfilled v"
  proof
    fix v
    show "first_result (heap s) (Fulfilled v) c = Fulfilled v"
    proof (cases "onEmit (heap s ! c)")
      case None
      then show ?thesis by (simp add: first_result_def stage_result_def)
    next
      case (Some f)
      with assms(6) have "inv_out f (Plain v) = Return (Plain v)" by blast
      with Some show ?thesis by (simp add: first_result_def stage_result_def)
    qed
  qed
  have q0: "\<forall>j \<in> set (queue s). job_ok ?D j" using assms(5) by simp
  from foreseen_ops [OF assms(1-4) q0 idn assms(8)] assms(9)
  have h: "heap s' = heap s" and ok: "\<forall>j \<in> set (queue s'). job_ok ?D j"
    and f: "foreseen c s' = foreseen c s @ map ?R (plain_emits ops)"
    by simp_all
  have f0: "foreseen c s = arrivals c (events s)" using assms(5) by (simp add: foreseen_def)
  have "arrivals c (events (run k s')) = arrivals c (events s) @ map ?R (plain_emits ops)
      \<and> received c (run k s') = received c s @ map Fulfilled (plain_emits ops)"
    if "length (queue s') \<le> k" for k
  proof -
    from run_shape [of s' n c k] assms(1-4) ok h
    have "arrivals c (events (run k s'))
        = arrivals c (events s') @ arrivals c (concat (map ev (take k (queue s'))))"
      by auto
    with that have a: "arrivals c (events (run k s')) = arrivals c (events s) @ map ?R (plain_emits ops)"
      using f f0 by (simp add: foreseen_def)
    have "map arrived (map ?R (plain_emits ops)) = map Fulfilled (plain_emits ops)"
      by (simp add: arrived_def)
    with a show ?thesis by (simp add: received_arrivals)
  qed
  then show ?thesis by blast
qed

lemma recorders_eq:
  "recorders = \<lparr>heap = [blank\<lparr>subscribers := [1, 2]\<rparr>, fresh 1 0 (Some ident) None, fresh 2 0 None None],
                queue = [], events = []\<rparr>"
  by (simp add: recorders_def exec_all_def init_def new_Observable_def subscribe_eq
        fresh_def push_def blank_def Let_def)

lemma recorders_downstream: "m \<in> downstream (heap recorders) 0 \<Longrightarrow> m = 1 \<or> m = 2"
proof (induction rule: downstream.induct)
  case (child c m)
  then show ?case
    by (auto simp: recorders_eq fresh_def blank_def node_targets_def slot_targets_def ident_def)
next
  case (step m c m')
  then show ?case by (auto simp: recorders_eq fresh_def blank_def)
qed

lemma recorders_run:
  "received 1 (run 4 (exec_all two_emits recorders)) = [Fulfilled (Num 1), Fulfilled (Num 2)]
   \<and> received 2 (run 4 (exec_all two_emits recorders)) = [Fulfilled (Num 1), Fulfilled (Num 2)]"
  by (simp add: two_emits_def exec_all_def recorders_eq emit_eq subs_of_def jobs_of_def job_of_def
        numeral_nat tick_def run_job_eq stage_result_def fresh_def blank_def ident_def received_def)

theorem identity_subscriber_receives_in_order_witness:
  "tree_inv (heap recorders) \<and> 0 < length (heap recorders)
   \<and> 1 \<in> set (subscribers (heap recorders ! 0)) \<and> 2 \<in> set (subscribers (heap recorders ! 0))
   \<and> 0 \<notin> downstream (heap recorders) 0 \<and> queue recorders = []
   \<and> onEmit (heap recorders ! 1) = Some ident \<and> onEmit (heap recorders ! 2) = None
   \<and> onError (heap recorders ! 1) = None \<and> onError (heap recorders ! 2) = None
   \<and> (\<exists>k0. \<forall>k \<ge> k0. received 1 (run k (exec_all two_emits recorders))
                          = [Fulfilled (Num 1), Fulfilled (Num 2)])
   \<and> (\<exists>k0. \<forall>k \<ge> k0. received 2 (run k (exec_all two_emits recorders))
                          = [Fulfilled (Num 1), Fulfilled (Num 2)])
   \<and> received 1 (run 4 (exec_all two_emits recorders)) = [Fulfilled (Num 1), Fulfilled (Num 2)]
   \<and> received 2 (run 4 (exec_all two_emits recorders)) = [Fulfilled (Num 1), Fulfilled (Num 2)]"
proof -
  have "tree_inv (heap init)" by (simp add: tree_inv_def init_def)
  then have h1: "tree_inv (heap recorders)" unfolding recorders_def by (rule tree_inv_exec_all)
  have h2: "0 < length (heap recorders)"
    and h3: "1 \<in> set (subscribers (heap recorders ! 0))"
    and h3': "2 \<in> set (subscribers (heap recorders ! 0))"
    and h5: "queue recorders = []"
    and h6: "onEmit (heap recorders ! 1) = Some ident" and h6': "onEmit (heap recorders ! 2) = None"
    and h7: "onError (heap recorders ! 1) = None" and h7': "onError (heap recorders ! 2) = None"
    by (simp_all add: recorders_eq fresh_def blank_def)
  have h4: "0 \<notin> downstream (heap recorders) 0"
    using recorders_downstream [of 0] by auto
  have i1: "\<forall>f. onEmit (heap recorders ! 1) = Some f \<longrightarrow> (\<forall>v. inv_out f (Plain v) = Return (Plain v))"
    using h6 by (simp add: ident_def)
  have i2: "\<forall>f. onEmit (heap recorders ! 2) = Some f \<longrightarrow> (\<forall>v. inv_out f (Plain v) = Return (Plain v))"
    using h6' by simp
  have ops: "\<forall>x \<in> set two_emits. x = Tick \<or> (\<exists>v. x = Emit 0 (Plain v))"
    by (simp add: two_emits_def)
  have r0: "received 1 recorders = []" "received 2 recorders = []"
    by (simp_all add: recorders_eq received_def)
  have pe: "plain_emits two_emits = [Num 1, Num 2]" by (simp add: two_emits_def)
  from identity_subscriber_receives_in_order [OF h1 h2 h3 h4 h5 i1 h7 ops refl] r0 pe
  have c1: "\<exists>k0. \<forall>k \<ge> k0. received 1 (run k (exec_all two_emits recorders))
                          = [Fulfilled (Num 1), Fulfilled (Num 2)]"
    by auto
  from identity_subscriber_receives_in_order [OF h1 h2 h3' h4 h5 i2 h7' ops refl] r0 pe
  have c2: "\<exists>k0. \<forall>k \<ge> k0. received 2 (run k (exec_all two_emits recorders))
                          = [Fulfilled (Num 1), Fulfilled (Num 2)]"
    by auto
  from h1 h2 h3 h3' h4 h5 h6 h6' h7 h7' c1 c2 recorders_run show ?thesis by blast
qed

lemma fork_eq:
  "fork = \<lparr>heap = [blank\<lparr>subscribers := [1, 2]\<rparr>,
                   (fresh 1 0 (Some ident) None)\<lparr>subscribers := [3]\<rparr>,
                   (fresh 2 0 (Some never) None)\<lparr>subscribers := [4]\<rparr>,
                   fresh 3 1 (Some ident) None, fresh 4 2 (Some ident) None],
           queue = [], events = []\<rparr>"
  by (simp add: fork_def exec_all_def init_def new_Observable_def subscribe_eq
        fresh_def push_def blank_def Let_def)

lemma fork_run:
  "events (run 3 (emit 0 (Plain (Num 5)) fork))
     = [Reaction 1 1 (Fulfilled (Num 5)) (Fulfilled (Num 5)),
        Reaction 2 1 (Fulfilled (Num 5)) Pending,
        Reaction 1 2 (Fulfilled (Num 5)) (Rejected (Plain TypeError))]
   \<and> queue (run 3 (emit 0 (Plain (Num 5)) fork)) = []"
  by (simp add: fork_eq emit_eq subs_of_def jobs_of_def job_of_def numeral_nat tick_def run_job_eq
        stage_result_def fresh_def blank_def ident_def never_def)

text \<open>
  Claim C1. The scenario of the claim: a root with the subscribers \<open>A\<close> (node \<open>1\<close>, a
  pass-through transform) and \<open>B\<close> (node \<open>2\<close>, a transform returning a future that never
  settles), each subscribed to (by the nodes \<open>3\<close> and \<open>4\<close>), and the call
  \<^verbatim>\<open>root.emit(5)\<close>. Both first stages run, whatever the other does: \<open>A\<close> passes \<open>5\<close> on and
  \<open>B\<close> stalls. The second stage of \<open>A\<close> then calls \<^verbatim>\<open>subscriber.emit\<close> without its receiver,
  which raises a TypeError; the queue is empty after three turns, and in no run does
  the subscriber of \<open>A\<close>, or that of \<open>B\<close>, receive anything.
\<close>

theorem pass_through_stops_at_first_level:
  "events (run 3 (emit 0 (Plain (Num 5)) fork))
     = [Reaction 1 1 (Fulfilled (Num 5)) (Fulfilled (Num 5)),
        Reaction 2 1 (Fulfilled (Num 5)) Pending,
        Reaction 1 2 (Fulfilled (Num 5)) (Rejected (Plain TypeError))]
   \<and> queue (run 3 (emit 0 (Plain (Num 5)) fork)) = []
   \<and> (\<forall>k. received 3 (run k (emit 0 (Plain (Num 5)) fork)) = []
          \<and> received 4 (run k (emit 0 (Plain (Num 5)) fork)) = [])"
proof -
  let ?s = "emit 0 (Plain (Num 5)) fork"
  from fork_run have ev: "events (run 3 ?s)
     = [Reaction 1 1 (Fulfilled (Num 5)) (Fulfilled (Num 5)),
        Reaction 2 1 (Fulfilled (Num 5)) Pending,
        Reaction 1 2 (Fulfilled (Num 5)) (Rejected (Plain TypeError))]"
    and q: "queue (run 3 ?s) = []" by simp_all
  have "received c (run k ?s) = []" if "c = 3 \<or> c = 4" for c k
  proof -
    from run_settled [OF q, of k] ev that
    have "\<forall>e \<in> set (events (run k ?s)). subject e \<noteq> c" by auto
    then have "arrivals c (events (run k ?s)) = []"
      by (auto simp: arrivals_def filter_empty_conv)
    then show ?thesis by (simp add: received_arrivals)
  qed
  with ev q show ?thesis by simp
qed

text \<open>
  Claim C2. On a root with the subscribers \<open>1\<close> and \<open>2\<close>, the first \<^verbatim>\<open>unsubscribe()\<close> of
  node \<open>1\<close> removes it; the second finds no index (\<^verbatim>\<open>indexOf\<close> gives \<open>-1\<close>), and
  \<^verbatim>\<open>splice(-1, 1)\<close> removes the last subscriber, node \<open>2\<close>.
\<close>

theorem second_unsubscribe_removes_sibling:
  "subscribers (heap recorders ! 0) = [1, 2]
   \<and> subscribers (heap (unsubscribe 1 recorders) ! 0) = [2]
   \<and> subscribers (heap (unsubscribe 1 (unsubscribe 1 recorders)) ! 0) = []"
  by (simp add: recorders_eq unsubscribe_def upd_node_def splice_js_def fresh_def blank_def Let_def)

end
